theory Spec2Isabelle
  imports Main "HOL-Library.AList" "HOL-Library.Char_ord" "HOL-Library.List_Lexorder"
begin

section \<open>Python values used by the pipeline\<close>

text \<open>
  A Python \<^verbatim>\<open>dict\<close> keeps its keys in insertion order and holds every key once, so it
  is an association list: \<^const>\<open>map_of\<close> is the lookup, \<^const>\<open>AList.update\<close> is
  \<^verbatim>\<open>d[k] = v\<close> (the value is replaced in place when the key is there, the pair is
  appended otherwise).  An entry of a reference list is a path or \<^verbatim>\<open>None\<close>, hence a
  \<open>string option\<close>.
\<close>

type_synonym ('k, 'v) dict = "('k \<times> 'v) list"

datatype py_error = KeyError | TypeError | StopIteration

text \<open>Truth value of a path-or-\<^verbatim>\<open>None\<close>: \<^verbatim>\<open>None\<close> and the empty string are falsy.\<close>

definition truthy :: "string option \<Rightarrow> bool" where
  "truthy v = (case v of None \<Rightarrow> False | Some s \<Rightarrow> s \<noteq> [])"

text \<open>The builtin \<^verbatim>\<open>any\<close> over such a list.\<close>

definition py_any :: "string option list \<Rightarrow> bool" where
  "py_any vs = list_ex truthy vs"

section \<open>Text primitives\<close>

text \<open>
  Text is a list of characters, a character being a code point below 256.  The character
  classes below are Python's Unicode-aware classes on these code points.

  \<^verbatim>\<open>str.isspace\<close>: tab, line feed, vertical tab, form feed, carriage return, the four
  separators \<^verbatim>\<open>\x1c\<close> to \<^verbatim>\<open>\x1f\<close>, the space, the next-line control \<^verbatim>\<open>\x85\<close> and the
  no-break space \<^verbatim>\<open>\xa0\<close>.  The same class is \<^verbatim>\<open>\s\<close> of a regular expression and what
  \<^verbatim>\<open>str.strip()\<close> removes.
\<close>

definition newline :: char where
  "newline = CHR 0x0A"

definition is_space :: "char \<Rightarrow> bool" where
  "is_space c = (c \<in> set [CHR 0x09, CHR 0x0A, CHR 0x0B, CHR 0x0C, CHR 0x0D,
                             CHR 0x1C, CHR 0x1D, CHR 0x1E, CHR 0x1F, CHR 0x20,
                             CHR 0x85, CHR 0xA0])"

definition strip :: "string \<Rightarrow> string" where
  "strip s = rev (dropWhile is_space (rev (dropWhile is_space s)))"

text \<open>The classes \<^verbatim>\<open>[a-zA-Z]\<close> and \<^verbatim>\<open>[0-9]\<close>.\<close>

definition is_letter :: "char \<Rightarrow> bool" where
  "is_letter c = ((CHR ''a'' \<le> c \<and> c \<le> CHR ''z'') \<or> (CHR ''A'' \<le> c \<and> c \<le> CHR ''Z''))"

definition is_digit :: "char \<Rightarrow> bool" where
  "is_digit c = (CHR ''0'' \<le> c \<and> c \<le> CHR ''9'')"

text \<open>
  The letters and numbers above \<^verbatim>\<open>\x7f\<close>: the ordinal indicators, the superscript digits,
  the micro sign, the fractions, and the accented letters (the multiplication and the
  division sign are none).
\<close>

definition is_high_alnum :: "char \<Rightarrow> bool" where
  "is_high_alnum c =
     (c \<in> set [CHR 0xAA, CHR 0xB2, CHR 0xB3, CHR 0xB5, CHR 0xB9, CHR 0xBA,
                 CHR 0xBC, CHR 0xBD, CHR 0xBE] \<or>
      (CHR 0xC0 \<le> c \<and> c \<le> CHR 0xD6) \<or>
      (CHR 0xD8 \<le> c \<and> c \<le> CHR 0xF6) \<or>
      (CHR 0xF8 \<le> c \<and> c \<le> CHR 0xFF))"

text \<open>\<^verbatim>\<open>\w\<close>: the alphanumeric characters and the underscore.\<close>

definition is_word_char :: "char \<Rightarrow> bool" where
  "is_word_char c = (is_letter c \<or> is_digit c \<or> c = CHR ''_'' \<or> is_high_alnum c)"

text \<open>
  Lower-casing of the letters \<^verbatim>\<open>A\<close> to \<^verbatim>\<open>Z\<close>, for the case-insensitive search of the owner
  tag: no other character below 256 matches a letter of the tag under \<^verbatim>\<open>re.IGNORECASE\<close>.
\<close>

definition ascii_lower :: "char \<Rightarrow> char" where
  "ascii_lower c =
     (if CHR ''A'' \<le> c \<and> c \<le> CHR ''Z'' then char_of (of_char c + (32 :: nat)) else c)"

text \<open>\<^verbatim>\<open>s.startswith(p)\<close>, \<^verbatim>\<open>sub in s\<close> and \<^verbatim>\<open>s.endswith(suf)\<close>.\<close>

fun startswith :: "string \<Rightarrow> string \<Rightarrow> bool" where
  "startswith s [] = True"
| "startswith [] (p # ps) = False"
| "startswith (c # cs) (p # ps) = (c = p \<and> startswith cs ps)"

fun contains :: "string \<Rightarrow> string \<Rightarrow> bool" where
  "contains sub [] = (sub = [])"
| "contains sub (c # cs) = (startswith (c # cs) sub \<or> contains sub cs)"

definition endswith :: "string \<Rightarrow> string \<Rightarrow> bool" where
  "endswith s suf = startswith (rev s) (rev suf)"

text \<open>
  \<^verbatim>\<open>f.readlines()\<close> on the decoded text: the lines, each keeping its line feed; a last line
  without one is kept as it is.
\<close>

fun readlines_from :: "string \<Rightarrow> string \<Rightarrow> string list" where
  "readlines_from cur [] = (if cur = [] then [] else [cur])"
| "readlines_from cur (c # cs) =
     (if c = newline then (cur @ [c]) # readlines_from [] cs
      else readlines_from (cur @ [c]) cs)"

definition readlines :: "string \<Rightarrow> string list" where
  "readlines text = readlines_from [] text"

section \<open>The operating system, as the scanners see it\<close>

text \<open>
  The scanners read the file tree through four library calls, which are the fields of
  the environment: \<^verbatim>\<open>os.walk(root)\<close> as the sequence of \<open>(subdir, files)\<close> it yields,
  \<^verbatim>\<open>os.path.join\<close>, the text of a file (\<open>None\<close> when opening or reading it raises the
  \<^verbatim>\<open>IOError\<close>/\<^verbatim>\<open>OSError\<close> that the scanners catch), and \<^verbatim>\<open>Path(p).stem\<close>.  A file has
  one text: the lenient decoding of the scanners and the strict decoding of the other
  readers are not told apart.  The catalog is read through \<^verbatim>\<open>csv.reader\<close>: the file is
  absent, or opening it raises \<^verbatim>\<open>IOError\<close>, or it yields its rows.
\<close>

datatype csv_file = Absent | Unreadable | Rows "string list list"

record os_env =
  os_walk :: "string \<Rightarrow> (string \<times> string list) list"
  os_path_join :: "string \<Rightarrow> string \<Rightarrow> string"
  read_text :: "string \<Rightarrow> string option"
  path_stem :: "string \<Rightarrow> string"
  read_csv :: "string \<Rightarrow> csv_file"

section \<open>The scanners keyed by a list of search strings\<close>

text \<open>\<^verbatim>\<open>{search_string: [] for search_string in search_data}\<close>.\<close>

definition empty_results :: "string list \<Rightarrow> (string, string list) dict" where
  "empty_results search_data =
     foldl (\<lambda>d search_string. AList.update search_string [] d) [] search_data"

text \<open>\<^verbatim>\<open>results[key].append(file_path)\<close>; the subscript raises when the key is missing.\<close>

definition dict_append ::
  "(string, string list) dict \<Rightarrow> string \<Rightarrow> string \<Rightarrow> py_error + (string, string list) dict" where
  "dict_append results key file_path =
     (case map_of results key of
        None \<Rightarrow> Inl KeyError
      | Some paths \<Rightarrow> Inr (AList.update key (paths @ [file_path]) results))"

text \<open>The loop over \<^verbatim>\<open>search_data\<close> for one file that was read.\<close>

fun record_matches ::
  "string list \<Rightarrow> string \<Rightarrow> string \<Rightarrow> (string, string list) dict \<Rightarrow>
   py_error + (string, string list) dict" where
  "record_matches [] content file_path results = Inr results"
| "record_matches (search_string # rest) content file_path results =
     (if contains search_string content
      then (case dict_append results search_string file_path of
              Inl e \<Rightarrow> Inl e
            | Inr results' \<Rightarrow> record_matches rest content file_path results')
      else record_matches rest content file_path results)"

text \<open>
  The loop over the files of one directory.  \<open>wanted\<close> is the test on the file name; a
  file that cannot be read is reported and skipped.
\<close>

fun scan_files ::
  "os_env \<Rightarrow> (string \<Rightarrow> bool) \<Rightarrow> string list \<Rightarrow> string \<Rightarrow> string list \<Rightarrow>
   (string, string list) dict \<Rightarrow> py_error + (string, string list) dict" where
  "scan_files env wanted search_data subdir [] results = Inr results"
| "scan_files env wanted search_data subdir (file # files) results =
     (if wanted file
      then (let file_path = os_path_join env subdir file in
            case read_text env file_path of
              None \<Rightarrow> scan_files env wanted search_data subdir files results
            | Some content \<Rightarrow>
                (case record_matches search_data content file_path results of
                   Inl e \<Rightarrow> Inl e
                 | Inr results' \<Rightarrow> scan_files env wanted search_data subdir files results'))
      else scan_files env wanted search_data subdir files results)"

text \<open>The loop over the directories of the walk.\<close>

fun scan_dirs ::
  "os_env \<Rightarrow> (string \<Rightarrow> bool) \<Rightarrow> string list \<Rightarrow> (string \<times> string list) list \<Rightarrow>
   (string, string list) dict \<Rightarrow> py_error + (string, string list) dict" where
  "scan_dirs env wanted search_data [] results = Inr results"
| "scan_dirs env wanted search_data ((subdir, files) # dirs) results =
     (case scan_files env wanted search_data subdir files results of
        Inl e \<Rightarrow> Inl e
      | Inr results' \<Rightarrow> scan_dirs env wanted search_data dirs results')"

text \<open>
  \<^verbatim>\<open>find_strings_in_sql_files\<close> and \<^verbatim>\<open>find_list_strings_in_py_files\<close> have the same
  body and differ in the test on the file name.
\<close>

definition is_sql_file :: "string \<Rightarrow> bool" where
  "is_sql_file file = (endswith file ''.sql'' \<and> file \<noteq> ''table_list.sql'')"

definition is_py_file :: "string \<Rightarrow> bool" where
  "is_py_file file = endswith file ''.py''"

definition find_strings_in_sql_files ::
  "os_env \<Rightarrow> string list \<Rightarrow> string \<Rightarrow> py_error + (string, string list) dict" where
  "find_strings_in_sql_files env search_data root_path =
     scan_dirs env is_sql_file search_data (os_walk env root_path) (empty_results search_data)"

definition find_list_strings_in_py_files ::
  "os_env \<Rightarrow> string list \<Rightarrow> string \<Rightarrow> py_error + (string, string list) dict" where
  "find_list_strings_in_py_files env search_data root_path =
     scan_dirs env is_py_file search_data (os_walk env root_path) (empty_results search_data)"

section \<open>The scanner keyed by sql path: \<^verbatim>\<open>find_dict_strings_in_py_files\<close>\<close>

definition get_filename_from_path :: "os_env \<Rightarrow> string \<Rightarrow> string" where
  "get_filename_from_path env filepath = path_stem env filepath"

text \<open>
  The loop over \<^verbatim>\<open>results.keys()\<close> for one script that was read: the script is appended
  under a key when the stem of the key occurs in the text and the script is not yet in
  the key's list.
\<close>

fun record_stem_matches ::
  "os_env \<Rightarrow> string list \<Rightarrow> string \<Rightarrow> string \<Rightarrow> (string, string list) dict \<Rightarrow>
   py_error + (string, string list) dict" where
  "record_stem_matches env [] content file_path results = Inr results"
| "record_stem_matches env (search_string # rest) content file_path results =
     (if contains (get_filename_from_path env search_string) content
      then (case map_of results search_string of
              None \<Rightarrow> Inl KeyError
            | Some paths \<Rightarrow>
                (if file_path \<notin> set paths
                 then record_stem_matches env rest content file_path
                        (AList.update search_string (paths @ [file_path]) results)
                 else record_stem_matches env rest content file_path results))
      else record_stem_matches env rest content file_path results)"

fun scan_stem_files ::
  "os_env \<Rightarrow> string \<Rightarrow> string list \<Rightarrow> (string, string list) dict \<Rightarrow>
   py_error + (string, string list) dict" where
  "scan_stem_files env subdir [] results = Inr results"
| "scan_stem_files env subdir (file # files) results =
     (if endswith file ''.py''
      then (let file_path = os_path_join env subdir file in
            case read_text env file_path of
              None \<Rightarrow> scan_stem_files env subdir files results
            | Some content \<Rightarrow>
                (case record_stem_matches env (map fst results) content file_path results of
                   Inl e \<Rightarrow> Inl e
                 | Inr results' \<Rightarrow> scan_stem_files env subdir files results'))
      else scan_stem_files env subdir files results)"

fun scan_stem_dirs ::
  "os_env \<Rightarrow> (string \<times> string list) list \<Rightarrow> (string, string list) dict \<Rightarrow>
   py_error + (string, string list) dict" where
  "scan_stem_dirs env [] results = Inr results"
| "scan_stem_dirs env ((subdir, files) # dirs) results =
     (case scan_stem_files env subdir files results of
        Inl e \<Rightarrow> Inl e
      | Inr results' \<Rightarrow> scan_stem_dirs env dirs results')"

definition find_dict_strings_in_py_files ::
  "os_env \<Rightarrow> (string, string list) dict \<Rightarrow> string \<Rightarrow> py_error + (string, string list) dict" where
  "find_dict_strings_in_py_files env search_data root_path =
     (let all_search_strings = concat (map snd search_data);
          results = empty_results all_search_strings
      in case scan_stem_dirs env (os_walk env root_path) results of
           Inl e \<Rightarrow> Inl e
         | Inr results' \<Rightarrow> Inr (filter (\<lambda>(key, value). value \<noteq> []) results'))"

section \<open>The join: \<^verbatim>\<open>get_paths\<close> and \<^verbatim>\<open>write_to_csv\<close>\<close>

text \<open>\<^verbatim>\<open>source_dict.get(key, default_value)\<close>.\<close>

definition get_paths :: "(string, 'v) dict \<Rightarrow> string \<Rightarrow> 'v \<Rightarrow> 'v" where
  "get_paths source_dict key default_value =
     (case map_of source_dict key of None \<Rightarrow> default_value | Some v \<Rightarrow> v)"

text \<open>
  A report row is the four-element list the source appends to \<^verbatim>\<open>rows_to_write\<close>.
  Each loop of \<^verbatim>\<open>write_to_csv\<close> is the function that returns the rows its body
  appends, in order.

  The innermost loop, over the config paths of one script.
\<close>

type_synonym row = "string list"

fun yaml_loop :: "string \<Rightarrow> string \<Rightarrow> string \<Rightarrow> string option list \<Rightarrow> row list" where
  "yaml_loop external_table_name sql_path py_path [] = []"
| "yaml_loop external_table_name sql_path py_path (yaml_path # rest) =
     (case yaml_path of
        Some y \<Rightarrow> [external_table_name, sql_path, py_path, y]
      | None \<Rightarrow> [external_table_name, sql_path, py_path, []])
     # yaml_loop external_table_name sql_path py_path rest"

text \<open>The body of the loop over the scripts of one sql path.\<close>

definition py_path_rows ::
  "(string, string option list) dict \<Rightarrow> string \<Rightarrow> string \<Rightarrow> string \<Rightarrow> row list" where
  "py_path_rows yaml_paths external_table_name sql_path py_path =
     (let associated_yaml_paths = get_paths yaml_paths py_path [None] in
      if \<not> py_any associated_yaml_paths
      then [[external_table_name, sql_path, py_path, []]]
      else yaml_loop external_table_name sql_path py_path associated_yaml_paths)"

text \<open>
  The body of the loop over the sql paths of one table.  \<^verbatim>\<open>all_py_paths\<close> is a Python
  set; its elements are the non-\<^verbatim>\<open>None\<close> entries of the two lookups, and the order in
  which the \<^verbatim>\<open>for\<close> loop visits them is not fixed by the language.  The parameter
  \<open>set_iter\<close> gives that order: \<open>set_iter xs\<close> is the sequence in which the set built from
  the elements \<open>xs\<close> is iterated.
\<close>

definition sql_path_rows ::
  "(string list \<Rightarrow> string list) \<Rightarrow> (string, string option list) dict \<Rightarrow>
   (string, string option list) dict \<Rightarrow> (string, string option list) dict \<Rightarrow>
   string \<Rightarrow> string option \<Rightarrow> row list" where
  "sql_path_rows set_iter py_paths py_table_paths yaml_paths external_table_name sql_path =
     (case sql_path of
        None \<Rightarrow> [[external_table_name, [], [], []]]
      | Some sp \<Rightarrow>
          (let py_paths_from_sql = get_paths py_paths sp [];
               py_paths_from_table = get_paths py_table_paths external_table_name [];
               all_py_paths = [p. Some p \<leftarrow> py_paths_from_sql @ py_paths_from_table]
           in if all_py_paths = []
              then [[external_table_name, sp, [], []]]
              else concat (map (py_path_rows yaml_paths external_table_name sp)
                               (set_iter all_py_paths))))"

text \<open>The body of the outer loop, over the tables of the catalog.\<close>

definition table_rows ::
  "(string list \<Rightarrow> string list) \<Rightarrow> (string, string option list) dict \<Rightarrow>
   (string, string option list) dict \<Rightarrow> (string, string option list) dict \<Rightarrow>
   (string, string option list) dict \<Rightarrow> string \<Rightarrow> row list" where
  "table_rows set_iter sql_paths py_paths py_table_paths yaml_paths external_table_name =
     (let associated_sql_paths = get_paths sql_paths external_table_name [None] in
      if \<not> py_any associated_sql_paths
      then [[external_table_name, [], [], []]]
      else concat (map (sql_path_rows set_iter py_paths py_table_paths yaml_paths
                          external_table_name)
                       associated_sql_paths))"

text \<open>
  \<^verbatim>\<open>write_to_csv\<close>: the value is \<^verbatim>\<open>rows_to_write\<close>, the list written below the header.
\<close>

definition write_to_csv ::
  "(string list \<Rightarrow> string list) \<Rightarrow> string list \<Rightarrow> (string, string option list) dict \<Rightarrow>
   (string, string option list) dict \<Rightarrow> (string, string option list) dict \<Rightarrow>
   (string, string option list) dict \<Rightarrow> row list" where
  "write_to_csv set_iter external_table_names sql_paths py_paths py_table_paths yaml_paths =
     concat (map (table_rows set_iter sql_paths py_paths py_table_paths yaml_paths)
                 external_table_names)"

text \<open>What is assumed of the iteration of a set: every element once, in any order.\<close>

definition set_iteration :: "(string list \<Rightarrow> string list) \<Rightarrow> bool" where
  "set_iteration set_iter = (\<forall>xs. distinct (set_iter xs) \<and> set (set_iter xs) = set xs)"

section \<open>Regular expressions\<close>

text \<open>
  The patterns of the source are values of a small datatype of regular expressions; a
  character class is the predicate of its characters.  Whether a text matches is decided
  by taking the residual of the expression after each character in turn.
\<close>

datatype regex =
    Nothing
  | Blank
  | Class "char \<Rightarrow> bool"
  | Alt regex regex
  | Cat regex regex
  | Rep regex

fun blank_ok :: "regex \<Rightarrow> bool" where
  "blank_ok Nothing = False"
| "blank_ok Blank = True"
| "blank_ok (Class P) = False"
| "blank_ok (Alt r s) = (blank_ok r \<or> blank_ok s)"
| "blank_ok (Cat r s) = (blank_ok r \<and> blank_ok s)"
| "blank_ok (Rep r) = True"

fun residual :: "char \<Rightarrow> regex \<Rightarrow> regex" where
  "residual c Nothing = Nothing"
| "residual c Blank = Nothing"
| "residual c (Class P) = (if P c then Blank else Nothing)"
| "residual c (Alt r s) = Alt (residual c r) (residual c s)"
| "residual c (Cat r s) =
     (if blank_ok r then Alt (Cat (residual c r) s) (residual c s)
      else Cat (residual c r) s)"
| "residual c (Rep r) = Cat (residual c r) (Rep r)"

text \<open>The whole text is matched by the expression.\<close>

definition fullmatch :: "regex \<Rightarrow> string \<Rightarrow> bool" where
  "fullmatch r s = blank_ok (foldl (\<lambda>q c. residual c q) r s)"

definition lit :: "char \<Rightarrow> regex" where
  "lit c = Class (\<lambda>x. x = c)"

text \<open>\<^verbatim>\<open>r?\<close> and \<^verbatim>\<open>r+\<close>.\<close>

definition opt :: "regex \<Rightarrow> regex" where
  "opt r = Alt r Blank"

definition plus :: "regex \<Rightarrow> regex" where
  "plus r = Cat r (Rep r)"

text \<open>\<^verbatim>\<open>(\*\*|#)\<close>, \<^verbatim>\<open>\s*\<close> and \<^verbatim>\<open>[a-zA-Z_]\<close>.\<close>

definition marker :: regex where
  "marker = Alt (Cat (lit CHR ''*'') (lit CHR ''*'')) (lit CHR ''#'')"

definition spaces :: regex where
  "spaces = Rep (Class is_space)"

definition is_key_char :: "char \<Rightarrow> bool" where
  "is_key_char c = (is_letter c \<or> c = CHR ''_'')"

text \<open>
  \<^verbatim>\<open>^\s*(\*\*|#)?\s*[a-zA-Z_]+:\s*(\*\*|#)?\s*$\<close>.  The source applies it with
  \<^verbatim>\<open>.match\<close>, which anchors at the start of the text; \<^verbatim>\<open>$\<close> holds at the end of the text
  and before a line feed that ends it, hence the optional line feed at the end.
\<close>

definition new_section_pattern :: regex where
  "new_section_pattern =
     Cat spaces (Cat (opt marker) (Cat spaces (Cat (plus (Class is_key_char))
       (Cat (lit CHR '':'') (Cat spaces (Cat (opt marker) (Cat spaces (opt (lit newline)))))))))"

text \<open>\<^verbatim>\<open>new_section_pattern.match(next_line.strip())\<close>.\<close>

definition is_new_section :: "string \<Rightarrow> bool" where
  "is_new_section next_line = fullmatch new_section_pattern (strip next_line)"

text \<open>
  \<^verbatim>\<open>owner_tag_pattern.search(line)\<close> for \<^verbatim>\<open>owner:\<close> with \<^verbatim>\<open>re.IGNORECASE\<close>: the tag
  occurs in the line, letter case aside.
\<close>

definition has_owner_tag :: "string \<Rightarrow> bool" where
  "has_owner_tag line = contains ''owner:'' (map ascii_lower line)"

text \<open>
  \<^verbatim>\<open>[\w\.-]+@[\w\.-]+\<close>.  Both runs are greedy and \<^verbatim>\<open>@\<close> is outside the class, so a
  match at a position is the longest run of class characters there, the \<^verbatim>\<open>@\<close>, and the
  longest run after it, both runs non-empty.  The value is the match and the text left
  after it.
\<close>

definition is_email_char :: "char \<Rightarrow> bool" where
  "is_email_char c = (is_word_char c \<or> c = CHR ''.'' \<or> c = CHR ''-'')"

definition match_email_at :: "string \<Rightarrow> (string \<times> string) option" where
  "match_email_at s =
     (let local_part = takeWhile is_email_char s in
      if local_part = [] then None
      else (case dropWhile is_email_char s of
              [] \<Rightarrow> None
            | c # after_at \<Rightarrow>
                (let domain_part = takeWhile is_email_char after_at in
                 if c = CHR ''@'' \<and> domain_part \<noteq> []
                 then Some (local_part @ [c] @ domain_part, dropWhile is_email_char after_at)
                 else None)))"

text \<open>
  \<^verbatim>\<open>email_pattern.findall(text)\<close>: the matches from left to right, the search going on
  after each match, or one character further where there is none.
\<close>

function findall_emails :: "string \<Rightarrow> string list" where
  "findall_emails [] = []"
| "findall_emails (c # cs) =
     (case match_email_at (c # cs) of
        Some (found, rest) \<Rightarrow> found # findall_emails rest
      | None \<Rightarrow> findall_emails cs)"
  by pat_completeness auto
termination
proof (relation "measure length")
  show "wf (measure length)" by simp
next
  fix c :: char and cs x2 found rest
  assume "match_email_at (c # cs) = Some x2" and "(found, rest) = x2"
  then have m: "match_email_at (c # cs) = Some (found, rest)" by simp
  have "length rest < length (c # cs)"
  proof -
    obtain a after_at where d: "dropWhile is_email_char (c # cs) = a # after_at"
      and r: "rest = dropWhile is_email_char after_at"
      using m by (auto simp: match_email_at_def Let_def split: if_splits list.splits)
    have "length rest \<le> length after_at"
      unfolding r by (rule length_dropWhile_le)
    moreover have "length (a # after_at) \<le> length (c # cs)"
      unfolding d[symmetric] by (rule length_dropWhile_le)
    ultimately show ?thesis by simp
  qed
  then show "(rest, c # cs) \<in> measure length" by simp
next
  fix c :: char and cs
  show "(cs, c # cs) \<in> measure length" by simp
qed

section \<open>Owner extraction: \<^verbatim>\<open>extract_owners_from_file\<close>\<close>

text \<open>
  The inner loop, over the lines after an owner tag: it stops at the first line that is
  a new section and collects the addresses of the lines before it.
\<close>

fun scan_block :: "string list \<Rightarrow> string list" where
  "scan_block [] = []"
| "scan_block (next_line # rest) =
     (if is_new_section next_line then []
      else findall_emails next_line @ scan_block rest)"

text \<open>The outer loop, over the lines of the file; the argument is the lines from index \<open>i\<close> on.\<close>

fun scan_lines :: "string list \<Rightarrow> string list" where
  "scan_lines [] = []"
| "scan_lines (line # rest) =
     (if has_owner_tag line then scan_block rest else []) @ scan_lines rest"

text \<open>
  \<^verbatim>\<open>sorted(list(set(owner_emails)))\<close>: strings are compared character by character, a
  proper prefix before its extensions, which is the order of lists of characters.
\<close>

definition sorted_unique :: "string list \<Rightarrow> string list" where
  "sorted_unique owner_emails = sort (remdups owner_emails)"

text \<open>
  The function proper.  A file that cannot be opened or read gives the empty list: the
  source catches every exception of the read.
\<close>

definition extract_owners_from_file :: "os_env \<Rightarrow> string \<Rightarrow> string list" where
  "extract_owners_from_file env filepath =
     (case read_text env filepath of
        None \<Rightarrow> []
      | Some text \<Rightarrow>
          (let owner_emails = scan_lines (readlines text) in
           if owner_emails \<noteq> [] then sorted_unique owner_emails else []))"

section \<open>Paths: \<^verbatim>\<open>get_first_subfolder_from_anchor\<close>\<close>

text \<open>\<^verbatim>\<open>xs.index(x)\<close>, \<open>None\<close> where Python raises \<^verbatim>\<open>ValueError\<close>.\<close>

fun index_of :: "'a list \<Rightarrow> 'a \<Rightarrow> nat option" where
  "index_of [] x = None"
| "index_of (y # ys) x = (if y = x then Some 0 else map_option Suc (index_of ys x))"

text \<open>
  The function, with \<^verbatim>\<open>Path(file_path).parts\<close> taken from the parameter \<open>path_parts\<close>: how
  a path splits into components is the business of \<^verbatim>\<open>pathlib\<close> and of the platform.  A
  \<^verbatim>\<open>ValueError\<close> of \<^verbatim>\<open>index\<close> is caught and gives \<^verbatim>\<open>None\<close>.
\<close>

definition get_first_subfolder_from_anchor ::
  "(string \<Rightarrow> string list) \<Rightarrow> string \<Rightarrow> string \<Rightarrow> string option" where
  "get_first_subfolder_from_anchor path_parts file_path anchor_folder =
     (let parts = path_parts file_path in
      if anchor_folder \<in> set parts
      then (case index_of parts anchor_folder of
              None \<Rightarrow> None
            | Some anchor_index \<Rightarrow>
                (if anchor_index + 1 < length parts then Some (parts ! (anchor_index + 1))
                 else None))
      else None)"

text \<open>The default value of \<^verbatim>\<open>anchor_folder\<close>.\<close>

definition default_anchor :: string where
  "default_anchor = ''pipeline''"

subsection \<open>The Windows flavour of \<^verbatim>\<open>pathlib\<close>\<close>

text \<open>
  The paths of the repository are Windows paths.  What follows is \<^verbatim>\<open>PureWindowsPath\<close> of
  CPython 3.12: \<^verbatim>\<open>ntpath.splitroot\<close>, \<^verbatim>\<open>_parse_path\<close>, \<^verbatim>\<open>parts\<close>, \<^verbatim>\<open>name\<close> and \<^verbatim>\<open>stem\<close>.
\<close>

definition sep :: char where
  "sep = CHR 0x5C"

definition altsep :: char where
  "altsep = CHR ''/''"

definition ascii_upper :: "char \<Rightarrow> char" where
  "ascii_upper c =
     (if CHR ''a'' \<le> c \<and> c \<le> CHR ''z'' then char_of (of_char c - (32 :: nat)) else c)"

text \<open>\<^verbatim>\<open>s.find(c, start)\<close> for one character, \<open>None\<close> for \<^verbatim>\<open>-1\<close>.\<close>

definition find_from :: "char \<Rightarrow> nat \<Rightarrow> string \<Rightarrow> nat option" where
  "find_from c start s = map_option (\<lambda>i. start + i) (index_of (drop start s) c)"

text \<open>\<^verbatim>\<open>s.split(c)\<close> for one character.\<close>

fun split_from :: "char \<Rightarrow> string \<Rightarrow> string \<Rightarrow> string list" where
  "split_from c cur [] = [cur]"
| "split_from c cur (x # xs) =
     (if x = c then cur # split_from c [] xs else split_from c (cur @ [x]) xs)"

definition split_on :: "char \<Rightarrow> string \<Rightarrow> string list" where
  "split_on c s = split_from c [] s"

definition unc_prefix :: string where
  "unc_prefix = [sep, sep, CHR ''?'', sep, CHR ''U'', CHR ''N'', CHR ''C'', sep]"

definition splitroot :: "string \<Rightarrow> string \<times> string \<times> string" where
  "splitroot p =
     (if take 1 p = [sep]
      then (if take 1 (drop 1 p) = [sep]
            then (let start = (if map ascii_upper (take 8 p) = unc_prefix then 8 else 2) in
                  case find_from sep start p of
                    None \<Rightarrow> (p, [], [])
                  | Some index \<Rightarrow>
                      (case find_from sep (index + 1) p of
                         None \<Rightarrow> (p, [], [])
                       | Some index2 \<Rightarrow>
                           (take index2 p, take 1 (drop index2 p), drop (index2 + 1) p)))
            else ([], take 1 p, drop 1 p))
      else if take 1 (drop 1 p) = '':''
      then (if take 1 (drop 2 p) = [sep]
            then (take 2 p, take 1 (drop 2 p), drop 3 p)
            else (take 2 p, [], drop 2 p))
      else ([], [], p))"

definition parse_path :: "string \<Rightarrow> string \<times> string \<times> string list" where
  "parse_path path0 =
     (if path0 = [] then ([], [], [])
      else (let path = map (\<lambda>c. if c = altsep then sep else c) path0;
                (drv, root0, rel) = splitroot path;
                drv_parts = split_on sep drv;
                root =
                  (if root0 = [] \<and> startswith drv [sep] \<and> \<not> endswith drv [sep]
                   then (if length drv_parts = 4 \<and> \<not> contains (drv_parts ! 2) ''?.''
                         then [sep]
                         else if length drv_parts = 6 then [sep] else root0)
                   else root0);
                parsed = filter (\<lambda>x. x \<noteq> [] \<and> x \<noteq> ''.'') (split_on sep rel)
            in (drv, root, parsed)))"

definition windows_parts :: "string \<Rightarrow> string list" where
  "windows_parts p =
     (let (drv, root, tail) = parse_path p in
      if drv \<noteq> [] \<or> root \<noteq> [] then (drv @ root) # tail else tail)"

definition windows_name :: "string \<Rightarrow> string" where
  "windows_name p =
     (let (drv, root, tail) = parse_path p in if tail = [] then [] else last tail)"

text \<open>\<^verbatim>\<open>name.rfind('.')\<close> is the position of the last dot.\<close>

definition windows_stem :: "string \<Rightarrow> string" where
  "windows_stem p =
     (let name = windows_name p in
      case index_of (rev name) CHR ''.'' of
        None \<Rightarrow> name
      | Some k \<Rightarrow>
          (let i = length name - 1 - k in
           if 0 < i \<and> i < length name - 1 then take i name else name))"

section \<open>The catalog loader: \<^verbatim>\<open>get_external_table_names_from_csv\<close>\<close>

text \<open>
  A missing file and an \<^verbatim>\<open>IOError\<close> both give the empty dict \<^verbatim>\<open>{}\<close>.  \<^verbatim>\<open>next(reader)\<close>
  on a file without a header row raises \<^verbatim>\<open>StopIteration\<close>, which is not among the
  exceptions the function catches.  A row of three or more fields gives
  \<^verbatim>\<open>row[1].strip() + "." + row[2].strip()\<close>.
\<close>

definition get_external_table_names_from_csv ::
  "os_env \<Rightarrow> string \<Rightarrow> py_error + (string, string list) dict" where
  "get_external_table_names_from_csv env filepath =
     (case read_csv env filepath of
        Absent \<Rightarrow> Inr []
      | Unreadable \<Rightarrow> Inr []
      | Rows rows \<Rightarrow>
          (case rows of
             [] \<Rightarrow> Inl StopIteration
           | header # data \<Rightarrow>
               Inr [(''external_table_names'',
                     [strip (row ! 1) @ ''.'' @ strip (row ! 2). row \<leftarrow> data, 3 \<le> length row])]))"

section \<open>The config scanner: \<^verbatim>\<open>find_yaml_paths_in_files\<close>\<close>

definition is_quote :: "char \<Rightarrow> bool" where
  "is_quote c = (c = CHR 0x27 \<or> c = CHR 0x22)"

text \<open>
  \<^verbatim>\<open>yaml\.(?:safe_)?load\(open\(['\"](.*?)['\"]\<close> at the start of a text: the captured
  group and the text after the match.  The group is lazy and the dot does not match a
  line feed, so the group ends at the first quote, which has to come before any line feed.
\<close>

definition match_yaml_at :: "string \<Rightarrow> (string \<times> string) option" where
  "match_yaml_at s =
     (if startswith s ''yaml.''
      then (let s1 = drop 5 s;
                s2 = (if startswith s1 ''safe_'' then drop 5 s1 else s1)
            in if startswith s2 ''load(open(''
               then (case drop 10 s2 of
                       [] \<Rightarrow> None
                     | q # s4 \<Rightarrow>
                         (if is_quote q
                          then (case dropWhile (\<lambda>c. \<not> is_quote c \<and> c \<noteq> newline) s4 of
                                  [] \<Rightarrow> None
                                | q' # rest \<Rightarrow>
                                    (if is_quote q'
                                     then Some (takeWhile (\<lambda>c. \<not> is_quote c \<and> c \<noteq> newline) s4,
                                                rest)
                                     else None))
                          else None))
               else None)
      else None)"

function findall_yaml :: "string \<Rightarrow> string list" where
  "findall_yaml [] = []"
| "findall_yaml (c # cs) =
     (case match_yaml_at (c # cs) of
        Some (found, rest) \<Rightarrow> found # findall_yaml rest
      | None \<Rightarrow> findall_yaml cs)"
  by pat_completeness auto
termination
proof (relation "measure length")
  show "wf (measure length)" by simp
next
  fix c :: char and cs x2 found rest
  assume "match_yaml_at (c # cs) = Some x2" and "(found, rest) = x2"
  then have m: "match_yaml_at (c # cs) = Some (found, rest)" by simp
  have "length rest < length (c # cs)"
  proof -
    let ?s1 = "drop 5 (c # cs)"
    let ?s2 = "if startswith ?s1 ''safe_'' then drop 5 ?s1 else ?s1"
    obtain q s4 q' where a: "drop 10 ?s2 = q # s4"
      and b: "dropWhile (\<lambda>c. \<not> is_quote c \<and> c \<noteq> newline) s4 = q' # rest"
      using m unfolding match_yaml_at_def Let_def
      by (auto split: if_splits list.splits)
    have "length (q' # rest) \<le> length s4"
      unfolding b[symmetric] by (rule length_dropWhile_le)
    moreover have "length (q # s4) \<le> length (c # cs)"
      unfolding a[symmetric] by auto
    ultimately show ?thesis by simp
  qed
  then show "(rest, c # cs) \<in> measure length" by simp
next
  fix c :: char and cs
  show "(cs, c # cs) \<in> measure length" by simp
qed

text \<open>
  Every script gets a key; a script that cannot be read keeps the empty list.
\<close>

definition find_yaml_paths_in_files :: "os_env \<Rightarrow> string list \<Rightarrow> (string, string list) dict" where
  "find_yaml_paths_in_files env py_files =
     foldl (\<lambda>extracted_paths_dict py_file.
              AList.update py_file
                (case read_text env py_file of None \<Rightarrow> [] | Some content \<Rightarrow> findall_yaml content)
                extracted_paths_dict)
           [] py_files"

section \<open>The driver\<close>

text \<open>
  The driver passes \<^verbatim>\<open>d.get(key)\<close> to the scanners, which is \<^verbatim>\<open>None\<close> when the key is
  missing; the first thing a scanner does with its argument is to iterate it, and
  iterating \<^verbatim>\<open>None\<close> raises \<^verbatim>\<open>TypeError\<close>.
\<close>

definition iterable :: "'a list option \<Rightarrow> py_error + 'a list" where
  "iterable v = (case v of None \<Rightarrow> Inl TypeError | Some xs \<Rightarrow> Inr xs)"

text \<open>The lists of the scanners hold paths only; the join also accepts \<^verbatim>\<open>None\<close> entries.\<close>

definition as_entries :: "(string, string list) dict \<Rightarrow> (string, string option list) dict" where
  "as_entries d = map (\<lambda>(key, paths). (key, map Some paths)) d"

text \<open>
  The statements of \<^verbatim>\<open>__main__\<close> up to the call of \<^verbatim>\<open>write_to_csv\<close>, in their order; the
  value is the list of rows handed to the csv writer, or the exception that ends the run.
  Nothing in the driver catches an exception.  \<^verbatim>\<open>create_dict_from_csv\<close>, called before
  the join, catches every exception of its own and has no part in the rows.
\<close>

definition main_report ::
  "os_env \<Rightarrow> (string list \<Rightarrow> string list) \<Rightarrow> string \<Rightarrow> string \<Rightarrow> py_error + row list" where
  "main_report env set_iter input_csv_file_path pipeline_file_path =
     (case get_external_table_names_from_csv env input_csv_file_path of
        Inl e \<Rightarrow> Inl e
      | Inr external_table_names \<Rightarrow>
     (case iterable (map_of external_table_names ''external_table_names'') of
        Inl e \<Rightarrow> Inl e
      | Inr names \<Rightarrow>
     (case find_strings_in_sql_files env names pipeline_file_path of
        Inl e \<Rightarrow> Inl e
      | Inr sql_file_paths \<Rightarrow>
     (case find_dict_strings_in_py_files env sql_file_paths pipeline_file_path of
        Inl e \<Rightarrow> Inl e
      | Inr py_file_paths \<Rightarrow>
     (case find_list_strings_in_py_files env names pipeline_file_path of
        Inl e \<Rightarrow> Inl e
      | Inr py_file_paths_by_table_name \<Rightarrow>
     (case find_list_strings_in_py_files env [''.yaml''] pipeline_file_path of
        Inl e \<Rightarrow> Inl e
      | Inr yaml_files \<Rightarrow>
     (case iterable (map_of yaml_files ''.yaml'') of
        Inl e \<Rightarrow> Inl e
      | Inr yaml_scripts \<Rightarrow>
          Inr (write_to_csv set_iter names (as_entries sql_file_paths)
                 (as_entries py_file_paths) (as_entries py_file_paths_by_table_name)
                 (as_entries (find_yaml_paths_in_files env yaml_scripts))))))))))"

section \<open>What a scan finds\<close>

text \<open>The files of a walk in the order of the two loops, as pairs of directory and name.\<close>

definition walk_entries :: "(string \<times> string list) list \<Rightarrow> (string \<times> string) list" where
  "walk_entries dirs =
     concat (map (\<lambda>(subdir, files). map (\<lambda>file. (subdir, file)) files) dirs)"

text \<open>The \<^verbatim>\<open>file_path\<close> of such a pair, and the paths of a walk.\<close>

definition entry_path :: "os_env \<Rightarrow> string \<times> string \<Rightarrow> string" where
  "entry_path env e = os_path_join env (fst e) (snd e)"

definition walk_paths :: "os_env \<Rightarrow> string \<Rightarrow> string list" where
  "walk_paths env root_path = map (entry_path env) (walk_entries (os_walk env root_path))"

text \<open>The file can be read and the string occurs in its text.\<close>

definition text_has :: "os_env \<Rightarrow> string \<Rightarrow> string \<Rightarrow> bool" where
  "text_has env needle file_path =
     (case read_text env file_path of
        None \<Rightarrow> False
      | Some content \<Rightarrow> contains needle content)"

text \<open>
  The paths of the files of a walk that pass the test on the name, can be read and
  contain the string, in walk order.
\<close>

definition matching_paths ::
  "os_env \<Rightarrow> (string \<Rightarrow> bool) \<Rightarrow> (string \<times> string list) list \<Rightarrow> string \<Rightarrow>
   string list" where
  "matching_paths env wanted dirs needle =
     map (entry_path env)
       (filter (\<lambda>e. wanted (snd e) \<and> text_has env needle (entry_path env e))
          (walk_entries dirs))"

text \<open>Every path of a list \<open>n\<close> times in a row.\<close>

definition repeated :: "nat \<Rightarrow> string list \<Rightarrow> string list" where
  "repeated n paths = concat (map (replicate n) paths)"

text \<open>
  What a loop does to the result map, given that every search string is a key: it does
  not raise, keeps the keys in their order, and appends to the list of each key.
\<close>

definition extends ::
  "(string, string list) dict \<Rightarrow> (string \<Rightarrow> string list) \<Rightarrow> (string, string list) dict \<Rightarrow>
   bool" where
  "extends results added results' =
     (map fst results' = map fst results \<and>
      (\<forall>k. map_of results' k = map_option (\<lambda>v. v @ added k) (map_of results k)))"

text \<open>
  What a loop of the by-stem scanner does to the result map: it keeps the keys in their
  order, adds paths to the list of each key, and keeps a list without repetition so.
\<close>

definition grows ::
  "(string, string list) dict \<Rightarrow> (string \<Rightarrow> string set) \<Rightarrow> (string, string list) dict \<Rightarrow>
   bool" where
  "grows results added results' =
     (map fst results' = map fst results \<and>
      (\<forall>k v. map_of results k = Some v \<longrightarrow>
         (\<exists>v'. map_of results' k = Some v' \<and> set v' = set v \<union> added k \<and>
               (distinct v \<longrightarrow> distinct v'))))"

section \<open>The section header in the words of the specification\<close>

text \<open>
  The section header as the specification words it: an optional marker, one or more
  word characters, a colon, an optional marker, and nothing else.
\<close>

definition is_marker_or_none :: "string \<Rightarrow> bool" where
  "is_marker_or_none m = (m = [] \<or> m = ''**'' \<or> m = ''#'')"

definition spec_section_header :: "string \<Rightarrow> bool" where
  "spec_section_header t =
     (let t1 = (if startswith t ''**'' then drop 2 t
                else if startswith t ''#'' then drop 1 t else t);
          key = takeWhile is_word_char t1;
          rest = dropWhile is_word_char t1
      in key \<noteq> [] \<and>
         (case rest of [] \<Rightarrow> False | c # m \<Rightarrow> c = CHR '':'' \<and> is_marker_or_none m))"

text \<open>The characters a section header is made of.\<close>

definition header_char :: "char \<Rightarrow> bool" where
  "header_char c =
     (is_space c \<or> is_key_char c \<or> c = CHR '':'' \<or> c = CHR ''*'' \<or> c = CHR ''#'')"

section \<open>Example data\<close>

text \<open>A small catalog with its reference maps, used to instantiate the theorems below.\<close>

definition ex_catalog :: "string list" where
  "ex_catalog = [''A.B'', ''C.D'', ''E.F'']"

definition ex_sql_paths :: "(string, string option list) dict" where
  "ex_sql_paths = [(''A.B'', [Some ''q.sql'', Some ''r.sql'']), (''C.D'', [])]"

definition ex_py_paths :: "(string, string option list) dict" where
  "ex_py_paths = [(''q.sql'', [Some ''dag.py''])]"

definition ex_py_table_paths :: "(string, string option list) dict" where
  "ex_py_table_paths = [(''C.D'', [Some ''dag2.py''])]"

definition ex_yaml_paths :: "(string, string option list) dict" where
  "ex_yaml_paths = [(''dag.py'', [Some ''c.yaml'', None])]"

text \<open>The file of the owner example: four lines, each ended by a line feed.\<close>

definition owner_file :: string where
  "owner_file = ''owner: a@x.com'' @ [newline] @ ''next: b@x.com'' @ [newline] @
                ''State: foo'' @ [newline] @ ''owner: c@x.com'' @ [newline]"

text \<open>
  A small tree under the root \<^verbatim>\<open>pipeline\<close>: one sql file and two scripts in a
  subdirectory, \<^verbatim>\<open>table_list.sql\<close> and a text file at the top; a catalog file, an
  unreadable one, and no other.
\<close>

definition ex_env :: os_env where
  "ex_env = \<lparr>
     os_walk = (\<lambda>root. [(root, [''table_list.sql'', ''readme.txt'']),
                        (root @ [sep] @ ''sales'', [''load.sql'', ''dag.py'', ''other.py''])]),
     os_path_join = (\<lambda>a b. a @ [sep] @ b),
     read_text = map_of
       [(''pipeline'' @ [sep] @ ''table_list.sql'', ''A.B C.D''),
        (''pipeline'' @ [sep] @ ''sales'' @ [sep] @ ''load.sql'', ''select * from A.B''),
        (''pipeline'' @ [sep] @ ''sales'' @ [sep] @ ''dag.py'',
           ''run(load) load A.B; yaml.safe_load(open('' @ [CHR 0x27] @ ''c.yaml'' @
           [CHR 0x27] @ ''))''),
        (''pipeline'' @ [sep] @ ''sales'' @ [sep] @ ''other.py'', ''nothing'')],
     path_stem = windows_stem,
     read_csv = (\<lambda>p. if p = ''catalog.csv''
                      then Rows [[''id'', ''schema'', ''table''], [''1'', '' A '', ''B''], [''2''],
                                 [''3'', ''C'', ''D'', ''x'']]
                      else if p = ''locked.csv'' then Unreadable else Absent) \<rparr>"

definition ex_load_sql :: string where
  "ex_load_sql = ''pipeline'' @ [sep] @ ''sales'' @ [sep] @ ''load.sql''"

definition ex_dag_py :: string where
  "ex_dag_py = ''pipeline'' @ [sep] @ ''sales'' @ [sep] @ ''dag.py''"

definition ex_sql_file_paths :: "(string, string list) dict" where
  "ex_sql_file_paths = [(''A.B'', [ex_load_sql, ''zz.sql'']), (''C.D'', [])]"

definition ex_owner_env :: os_env where
  "ex_owner_env =
     ex_env \<lparr> read_text := (\<lambda>p. if p = ''dag.py'' then Some owner_file else None) \<rparr>"

definition ex_script_path :: string where
  "ex_script_path =
     ''C:'' @ [sep] @ ''x'' @ [sep] @ ''pipeline'' @ [sep] @ ''sales'' @ [sep] @ ''dags'' @
     [sep] @ ''a.py''"

section \<open>Properties of the join\<close>

lemma yaml_loop_shape:
  "r \<in> set (yaml_loop t s p ys) \<Longrightarrow> \<exists>c. r = [t, s, p, c]"
  by (induction ys) (auto split: option.splits)

lemma yaml_loop_Nil: "yaml_loop t s p ys = [] \<longleftrightarrow> ys = []"
  by (cases ys) auto

lemma py_any_Nil: "\<not> py_any []"
  by (simp add: py_any_def)

lemma py_path_rows_shape:
  "r \<in> set (py_path_rows yaml t s p) \<Longrightarrow> \<exists>c. r = [t, s, p, c]"
  by (auto simp: py_path_rows_def Let_def dest: yaml_loop_shape split: if_splits)

lemma py_path_rows_nonempty: "py_path_rows yaml t s p \<noteq> []"
  by (auto simp: py_path_rows_def Let_def yaml_loop_Nil py_any_Nil)

lemma sql_path_rows_shape:
  "r \<in> set (sql_path_rows set_iter py pyt yaml t sp) \<Longrightarrow> \<exists>a b c. r = [t, a, b, c]"
  by (auto simp: sql_path_rows_def Let_def dest: py_path_rows_shape split: option.splits if_splits)

lemma set_iteration_nonempty:
  "set_iteration set_iter \<Longrightarrow> xs \<noteq> [] \<Longrightarrow> set_iter xs \<noteq> []"
  by (metis set_iteration_def set_empty)

lemma sql_path_rows_nonempty:
  assumes "set_iteration set_iter"
  shows "sql_path_rows set_iter py pyt yaml t sp \<noteq> []"
proof (cases sp)
  case None
  then show ?thesis by (simp add: sql_path_rows_def)
next
  case (Some s)
  let ?all = "[p. Some p \<leftarrow> get_paths py s [] @ get_paths pyt t []]"
  show ?thesis
  proof (cases "?all = []")
    case True
    with Some show ?thesis by (simp add: sql_path_rows_def)
  next
    case False
    then obtain q qs where "set_iter ?all = q # qs"
      using set_iteration_nonempty[OF assms] by (metis list.exhaust)
    with Some False show ?thesis
      by (simp add: sql_path_rows_def Let_def py_path_rows_nonempty)
  qed
qed

lemma table_rows_shape:
  "r \<in> set (table_rows set_iter sql py pyt yaml t) \<Longrightarrow> \<exists>a b c. r = [t, a, b, c]"
  by (auto simp: table_rows_def Let_def dest: sql_path_rows_shape split: if_splits)

lemma table_rows_nonempty:
  assumes "set_iteration set_iter"
  shows "table_rows set_iter sql py pyt yaml t \<noteq> []"
proof (cases "py_any (get_paths sql t [None])")
  case False
  then show ?thesis by (simp add: table_rows_def)
next
  case True
  then obtain v vs where "get_paths sql t [None] = v # vs"
    by (cases "get_paths sql t [None]") (auto simp: py_any_Nil)
  with True show ?thesis
    by (simp add: table_rows_def Let_def sql_path_rows_nonempty[OF assms])
qed

lemma table_rows_unmatched:
  "\<not> py_any (get_paths sql t [None]) \<Longrightarrow>
   table_rows set_iter sql py pyt yaml t = [[t, [], [], []]]"
  by (simp add: table_rows_def)

lemma write_to_csv_append:
  "write_to_csv set_iter (xs @ ys) sql py pyt yaml =
   write_to_csv set_iter xs sql py pyt yaml @ write_to_csv set_iter ys sql py pyt yaml"
  by (simp add: write_to_csv_def)

lemma write_to_csv_Cons:
  "write_to_csv set_iter (t # ts) sql py pyt yaml =
   table_rows set_iter sql py pyt yaml t @ write_to_csv set_iter ts sql py pyt yaml"
  by (simp add: write_to_csv_def)

lemma write_to_csv_Nil: "write_to_csv set_iter [] sql py pyt yaml = []"
  by (simp add: write_to_csv_def)

lemma filter_table_rows:
  "filter (\<lambda>r. hd r = t) (table_rows set_iter sql py pyt yaml u) =
   (if u = t then table_rows set_iter sql py pyt yaml u else [])"
proof (cases "u = t")
  case True
  then show ?thesis by (auto simp: filter_id_conv dest: table_rows_shape)
next
  case False
  then show ?thesis by (auto simp: filter_empty_conv dest: table_rows_shape)
qed

lemma filter_write_to_csv_unmatched:
  assumes "\<not> py_any (get_paths sql t [None])"
  shows "filter (\<lambda>r. hd r = t) (write_to_csv set_iter catalog sql py pyt yaml) =
         replicate (count_list catalog t) [t, [], [], []]"
proof (induction catalog)
  case Nil
  show ?case by (simp add: write_to_csv_Nil)
next
  case (Cons u us)
  then show ?case
    by (simp add: write_to_csv_Cons filter_table_rows table_rows_unmatched[OF assms])
qed

text \<open>
  Claim C1.  Whatever the catalog and the reference maps, every table name of the catalog
  is the first field of at least one row of the report built by \<^verbatim>\<open>write_to_csv\<close>.  A
  catalog entry whose sql lookup has no usable path (key absent, empty list, or only
  \<^verbatim>\<open>None\<close> or empty entries) contributes exactly the one row \<open>[table, '', '', '']\<close>
  at its place in the report, so the rows of the report that start with such a table are
  that row, once per occurrence of the table in the catalog.
\<close>

theorem catalog_completeness:
  assumes "set_iteration set_iter"
  shows "(\<forall>t \<in> set catalog.
            \<exists>r \<in> set (write_to_csv set_iter catalog sql py pyt yaml). \<exists>a b c. r = [t, a, b, c]) \<and>
         (\<forall>t pre post. \<not> py_any (get_paths sql t [None]) \<longrightarrow>
            write_to_csv set_iter (pre @ t # post) sql py pyt yaml =
              write_to_csv set_iter pre sql py pyt yaml @ [[t, [], [], []]] @
              write_to_csv set_iter post sql py pyt yaml) \<and>
         (\<forall>t. \<not> py_any (get_paths sql t [None]) \<longrightarrow>
            filter (\<lambda>r. hd r = t) (write_to_csv set_iter catalog sql py pyt yaml) =
              replicate (count_list catalog t) [t, [], [], []])"
proof (intro conjI ballI allI impI)
  fix t assume "t \<in> set catalog"
  obtain r rs where rows: "table_rows set_iter sql py pyt yaml t = r # rs"
    using table_rows_nonempty[OF assms] by (metis list.exhaust)
  then have "r \<in> set (table_rows set_iter sql py pyt yaml t)" by simp
  then have "\<exists>a b c. r = [t, a, b, c]" by (rule table_rows_shape)
  moreover have "r \<in> set (write_to_csv set_iter catalog sql py pyt yaml)"
    using \<open>t \<in> set catalog\<close> rows by (auto simp: write_to_csv_def intro!: bexI[of _ t])
  ultimately show "\<exists>r \<in> set (write_to_csv set_iter catalog sql py pyt yaml). \<exists>a b c. r = [t, a, b, c]"
    by blast
next
  fix t pre post assume "\<not> py_any (get_paths sql t [None])"
  then show "write_to_csv set_iter (pre @ t # post) sql py pyt yaml =
              write_to_csv set_iter pre sql py pyt yaml @ [[t, [], [], []]] @
              write_to_csv set_iter post sql py pyt yaml"
    by (simp add: write_to_csv_append write_to_csv_Cons table_rows_unmatched)
next
  fix t assume "\<not> py_any (get_paths sql t [None])"
  then show "filter (\<lambda>r. hd r = t) (write_to_csv set_iter catalog sql py pyt yaml) =
              replicate (count_list catalog t) [t, [], [], []]"
    by (rule filter_write_to_csv_unmatched)
qed

lemma set_iteration_remdups: "set_iteration remdups"
  by (simp add: set_iteration_def)



theorem catalog_completeness_witness:
  "set_iteration remdups \<and>
   ''A.B'' \<in> set ex_catalog \<and>
   (\<exists>r \<in> set (write_to_csv remdups ex_catalog ex_sql_paths ex_py_paths ex_py_table_paths
                     ex_yaml_paths).
      \<exists>a b c. r = [''A.B'', a, b, c]) \<and>
   \<not> py_any (get_paths ex_sql_paths ''E.F'' [None]) \<and>
   filter (\<lambda>r. hd r = ''E.F'')
     (write_to_csv remdups ex_catalog ex_sql_paths ex_py_paths ex_py_table_paths ex_yaml_paths) =
     [[''E.F'', [], [], []]]"
proof -
  have m: "''A.B'' \<in> set ex_catalog"
    by (simp add: ex_catalog_def)
  have h: "\<not> py_any (get_paths ex_sql_paths ''E.F'' [None])"
    by (simp add: ex_sql_paths_def get_paths_def py_any_def truthy_def)
  have c: "count_list ex_catalog ''E.F'' = 1"
    by (simp add: ex_catalog_def)
  note t = catalog_completeness[OF set_iteration_remdups, of ex_catalog ex_sql_paths
             ex_py_paths ex_py_table_paths ex_yaml_paths]
  from t m have t1:
    "\<exists>r \<in> set (write_to_csv remdups ex_catalog ex_sql_paths ex_py_paths ex_py_table_paths
                     ex_yaml_paths).
        \<exists>a b c. r = [''A.B'', a, b, c]"
    by blast
  from t h have "filter (\<lambda>r. hd r = ''E.F'')
     (write_to_csv remdups ex_catalog ex_sql_paths ex_py_paths ex_py_table_paths ex_yaml_paths) =
     replicate (count_list ex_catalog ''E.F'') [''E.F'', [], [], []]"
    by blast
  with c have t3: "filter (\<lambda>r. hd r = ''E.F'')
     (write_to_csv remdups ex_catalog ex_sql_paths ex_py_paths ex_py_table_paths ex_yaml_paths) =
     [[''E.F'', [], [], []]]"
    by simp
  from set_iteration_remdups m h t1 t3 show ?thesis by blast
qed

lemma get_paths_absent: "map_of d k = None \<Longrightarrow> get_paths d k dflt = dflt"
  by (simp add: get_paths_def)

lemma get_paths_present: "map_of d k = Some v \<Longrightarrow> get_paths d k dflt = v"
  by (simp add: get_paths_def)

lemma sql_path_rows_no_script:
  "[p. Some p \<leftarrow> get_paths py sp [] @ get_paths pyt t []] = [] \<Longrightarrow>
   sql_path_rows set_iter py pyt yaml t (Some sp) = [[t, sp, [], []]]"
  by (simp add: sql_path_rows_def)

text \<open>
  Claim C2.  A table whose sql lookup has the key absent, an empty list, or no usable entry
  yields exactly the row \<open>[table, '', '', '']\<close>, and the join goes on with the next table.
  A real sql path whose scripts, from the by-stem and the by-table lookups together and
  without the \<^verbatim>\<open>None\<close> entries, are none yields exactly the row
  \<open>[table, sql_path, '', '']\<close>, at its place among the rows of the table.
\<close>

theorem join_placeholder_rows:
  "(\<forall>t rest. map_of sql t = None \<or> map_of sql t = Some [] \<or>
        \<not> py_any (get_paths sql t [None]) \<longrightarrow>
        table_rows set_iter sql py pyt yaml t = [[t, [], [], []]] \<and>
        write_to_csv set_iter (t # rest) sql py pyt yaml =
          [t, [], [], []] # write_to_csv set_iter rest sql py pyt yaml) \<and>
   (\<forall>t sp. [p. Some p \<leftarrow> get_paths py sp [] @ get_paths pyt t []] = [] \<longrightarrow>
        sql_path_rows set_iter py pyt yaml t (Some sp) = [[t, sp, [], []]]) \<and>
   (\<forall>t sp before after.
        py_any (get_paths sql t [None]) \<and>
        get_paths sql t [None] = before @ Some sp # after \<and>
        [p. Some p \<leftarrow> get_paths py sp [] @ get_paths pyt t []] = [] \<longrightarrow>
        table_rows set_iter sql py pyt yaml t =
          concat (map (sql_path_rows set_iter py pyt yaml t) before) @
          [[t, sp, [], []]] @
          concat (map (sql_path_rows set_iter py pyt yaml t) after))"
proof (intro conjI allI impI)
  fix t rest
  assume a: "map_of sql t = None \<or> map_of sql t = Some [] \<or> \<not> py_any (get_paths sql t [None])"
  have n: "\<not> py_any (get_paths sql t [None])"
    using a by (auto simp: get_paths_def py_any_def truthy_def)
  show "table_rows set_iter sql py pyt yaml t = [[t, [], [], []]]"
    using n by (rule table_rows_unmatched)
  then show "write_to_csv set_iter (t # rest) sql py pyt yaml =
          [t, [], [], []] # write_to_csv set_iter rest sql py pyt yaml"
    by (simp add: write_to_csv_Cons)
next
  fix t sp
  assume "[p. Some p \<leftarrow> get_paths py sp [] @ get_paths pyt t []] = []"
  then show "sql_path_rows set_iter py pyt yaml t (Some sp) = [[t, sp, [], []]]"
    by (rule sql_path_rows_no_script)
next
  fix t sp before after
  assume a: "py_any (get_paths sql t [None]) \<and>
        get_paths sql t [None] = before @ Some sp # after \<and>
        [p. Some p \<leftarrow> get_paths py sp [] @ get_paths pyt t []] = []"
  then have p: "py_any (get_paths sql t [None])"
    and g: "get_paths sql t [None] = before @ Some sp # after"
    and u: "[p. Some p \<leftarrow> get_paths py sp [] @ get_paths pyt t []] = []"
    by blast+
  have s: "sql_path_rows set_iter py pyt yaml t (Some sp) = [[t, sp, [], []]]"
    using u by (rule sql_path_rows_no_script)
  have "table_rows set_iter sql py pyt yaml t =
          concat (map (sql_path_rows set_iter py pyt yaml t) (get_paths sql t [None]))"
    using p by (simp add: table_rows_def Let_def)
  also have "\<dots> = concat (map (sql_path_rows set_iter py pyt yaml t) before) @
          [[t, sp, [], []]] @
          concat (map (sql_path_rows set_iter py pyt yaml t) after)"
    unfolding g using s by simp
  finally show "table_rows set_iter sql py pyt yaml t =
          concat (map (sql_path_rows set_iter py pyt yaml t) before) @
          [[t, sp, [], []]] @
          concat (map (sql_path_rows set_iter py pyt yaml t) after)" .
qed

theorem join_placeholder_rows_witness:
  "map_of ex_sql_paths ''E.F'' = None \<and>
   map_of ex_sql_paths ''C.D'' = Some [] \<and>
   table_rows remdups ex_sql_paths ex_py_paths ex_py_table_paths ex_yaml_paths ''E.F'' = [[''E.F'', [], [], []]] \<and>
   table_rows remdups ex_sql_paths ex_py_paths ex_py_table_paths ex_yaml_paths ''C.D'' = [[''C.D'', [], [], []]] \<and>
   [p. Some p \<leftarrow> get_paths ex_py_paths ''r.sql'' [] @ get_paths ex_py_table_paths ''A.B'' []] = [] \<and>
   py_any (get_paths ex_sql_paths ''A.B'' [None]) \<and>
   get_paths ex_sql_paths ''A.B'' [None] = [Some ''q.sql''] @ Some ''r.sql'' # [] \<and>
   sql_path_rows remdups ex_py_paths ex_py_table_paths ex_yaml_paths ''A.B'' (Some ''r.sql'') =
     [[''A.B'', ''r.sql'', [], []]] \<and>
   table_rows remdups ex_sql_paths ex_py_paths ex_py_table_paths ex_yaml_paths ''A.B'' =
     concat (map (sql_path_rows remdups ex_py_paths ex_py_table_paths ex_yaml_paths ''A.B'') [Some ''q.sql'']) @
     [[''A.B'', ''r.sql'', [], []]] @
     concat (map (sql_path_rows remdups ex_py_paths ex_py_table_paths ex_yaml_paths ''A.B'') [])"
proof -
  note t = join_placeholder_rows[of ex_sql_paths remdups ex_py_paths ex_py_table_paths ex_yaml_paths]
  have a: "map_of ex_sql_paths ''E.F'' = None" by (simp add: ex_sql_paths_def)
  have b: "map_of ex_sql_paths ''C.D'' = Some []" by (simp add: ex_sql_paths_def)
  have c: "[p. Some p \<leftarrow> get_paths ex_py_paths ''r.sql'' [] @ get_paths ex_py_table_paths ''A.B'' []] = []"
    by (simp add: ex_py_paths_def ex_py_table_paths_def get_paths_def)
  have d: "py_any (get_paths ex_sql_paths ''A.B'' [None])"
    by (simp add: ex_sql_paths_def get_paths_def py_any_def truthy_def)
  have e: "get_paths ex_sql_paths ''A.B'' [None] = [Some ''q.sql''] @ Some ''r.sql'' # []"
    by (simp add: ex_sql_paths_def get_paths_def)
  from t a have r1: "table_rows remdups ex_sql_paths ex_py_paths ex_py_table_paths ex_yaml_paths ''E.F'' = [[''E.F'', [], [], []]]"
    by blast
  from t b have r2: "table_rows remdups ex_sql_paths ex_py_paths ex_py_table_paths ex_yaml_paths ''C.D'' = [[''C.D'', [], [], []]]"
    by blast
  from t c have r3: "sql_path_rows remdups ex_py_paths ex_py_table_paths ex_yaml_paths ''A.B'' (Some ''r.sql'') =
     [[''A.B'', ''r.sql'', [], []]]" by blast
  from t c d e have r4: "table_rows remdups ex_sql_paths ex_py_paths ex_py_table_paths ex_yaml_paths ''A.B'' =
     concat (map (sql_path_rows remdups ex_py_paths ex_py_table_paths ex_yaml_paths ''A.B'') [Some ''q.sql'']) @
     [[''A.B'', ''r.sql'', [], []]] @
     concat (map (sql_path_rows remdups ex_py_paths ex_py_table_paths ex_yaml_paths ''A.B'') [])"
    by blast
  from a b c d e r1 r2 r3 r4 show ?thesis by blast
qed

section \<open>Properties of the scanners keyed by search strings\<close>

lemma walk_entries_Nil: "walk_entries [] = []"
  by (simp add: walk_entries_def)

lemma walk_entries_Cons:
  "walk_entries ((subdir, files) # dirs) = map (\<lambda>file. (subdir, file)) files @ walk_entries dirs"
  by (simp add: walk_entries_def)

lemma matching_paths_Nil: "matching_paths env wanted [] needle = []"
  by (simp add: matching_paths_def walk_entries_Nil)

lemma matching_paths_dir_Nil:
  "matching_paths env wanted ((subdir, []) # dirs) needle = matching_paths env wanted dirs needle"
  by (simp add: matching_paths_def walk_entries_Cons)

lemma matching_paths_dir_Cons:
  "matching_paths env wanted ((subdir, file # files) # dirs) needle =
     (if wanted file \<and> text_has env needle (os_path_join env subdir file)
      then [os_path_join env subdir file] else []) @
     matching_paths env wanted ((subdir, files) # dirs) needle"
  by (simp add: matching_paths_def walk_entries_Cons entry_path_def)

lemma repeated_Nil: "repeated n [] = []"
  by (simp add: repeated_def)

lemma repeated_append: "repeated n (xs @ ys) = repeated n xs @ repeated n ys"
  by (simp add: repeated_def)

lemma repeated_single: "repeated n [p] = replicate n p"
  by (simp add: repeated_def)

subsection \<open>The empty result map\<close>

lemma foldl_update_keys:
  "fst ` set (foldl (\<lambda>d s. AList.update s [] d) acc ss) = fst ` set acc \<union> set ss"
  by (induction ss arbitrary: acc) (auto simp: dom_update)

lemma foldl_update_distinct:
  "distinct (map fst acc) \<Longrightarrow> distinct (map fst (foldl (\<lambda>d s. AList.update s [] d) acc ss))"
  by (induction ss arbitrary: acc) (auto simp: distinct_update)

lemma foldl_update_map_of:
  "map_of (foldl (\<lambda>d s. AList.update s ([] :: string list) d) acc ss) k =
     (if k \<in> set ss then Some [] else map_of acc k)"
  by (induction ss arbitrary: acc) (auto simp: update_conv')

lemma empty_results_keys: "fst ` set (empty_results ss) = set ss"
  by (simp add: empty_results_def foldl_update_keys)

lemma empty_results_distinct: "distinct (map fst (empty_results ss))"
  by (simp add: empty_results_def foldl_update_distinct)

lemma empty_results_map_of:
  "map_of (empty_results ss) k = (if k \<in> set ss then Some [] else None)"
  by (simp add: empty_results_def foldl_update_map_of)

subsection \<open>The loops of the list-keyed scanners\<close>

lemma extends_refl: "(\<And>k. added k = []) \<Longrightarrow> extends results added results"
  by (simp add: extends_def option.map_ident)

lemma extends_trans:
  assumes "extends r0 a1 r1" and "extends r1 a2 r2" and "\<And>k. a k = a1 k @ a2 k"
  shows "extends r0 a r2"
  using assms by (simp add: extends_def option.map_comp comp_def)

lemma extends_update:
  assumes "map_of results key = Some paths"
  shows "extends results (\<lambda>k. if k = key then [p] else [])
           (AList.update key (paths @ [p]) results)"
proof -
  have "key \<in> set (map fst results)"
    using assms by (metis map_of_eq_None_iff option.distinct(1) set_map)
  then have "map fst (AList.update key (paths @ [p]) results) = map fst results"
    by (simp add: update_keys)
  moreover have "map_of (AList.update key (paths @ [p]) results) k =
      map_option (\<lambda>v. v @ (if k = key then [p] else [])) (map_of results k)" for k
    using assms by (cases "map_of results k") (auto simp: update_conv')
  ultimately show ?thesis by (simp add: extends_def)
qed

lemma key_has_value:
  "k \<in> fst ` set results \<Longrightarrow> \<exists>v. map_of results k = Some v"
  by (metis map_of_eq_None_iff not_Some_eq)

lemma extends_keys: "extends r a r' \<Longrightarrow> fst ` set r' = fst ` set r"
  by (metis extends_def set_map)

lemma record_matches_extends:
  assumes "set ss \<subseteq> fst ` set results"
  shows "\<exists>results'. record_matches ss content file_path results = Inr results' \<and>
           extends results
             (\<lambda>k. if contains k content then replicate (count_list ss k) file_path else [])
             results'"
  using assms
proof (induction ss arbitrary: results)
  case Nil
  then show ?case by (simp add: extends_refl)
next
  case (Cons s ss)
  show ?case
  proof (cases "contains s content")
    case False
    from Cons.prems have "set ss \<subseteq> fst ` set results" by simp
    from Cons.IH[OF this] obtain r where
      r: "record_matches ss content file_path results = Inr r"
      and e: "extends results
             (\<lambda>k. if contains k content then replicate (count_list ss k) file_path else []) r"
      by blast
    have "extends results
             (\<lambda>k. if contains k content then replicate (count_list (s # ss) k) file_path else []) r"
      using e False by (auto simp: extends_def intro!: arg_cong2[where f=map_option] ext)
    with r False show ?thesis by simp
  next
    case True
    from Cons.prems obtain paths where p: "map_of results s = Some paths"
      using key_has_value[of s results] by auto
    let ?r1 = "AList.update s (paths @ [file_path]) results"
    have e1: "extends results (\<lambda>k. if k = s then [file_path] else []) ?r1"
      using p by (rule extends_update)
    have "set ss \<subseteq> fst ` set ?r1"
      using Cons.prems extends_keys[OF e1] by simp
    from Cons.IH[OF this] obtain r where
      r: "record_matches ss content file_path ?r1 = Inr r"
      and e: "extends ?r1
             (\<lambda>k. if contains k content then replicate (count_list ss k) file_path else []) r"
      by blast
    have "extends results
             (\<lambda>k. if contains k content then replicate (count_list (s # ss) k) file_path else []) r"
      using e1 e
    proof (rule extends_trans)
      fix k
      show "(if contains k content then replicate (count_list (s # ss) k) file_path else []) =
            (if k = s then [file_path] else []) @
            (if contains k content then replicate (count_list ss k) file_path else [])"
        using True by simp
    qed
    moreover have "record_matches (s # ss) content file_path results = Inr r"
      using True p r by (simp add: dict_append_def)
    ultimately show ?thesis by blast
  qed
qed

lemma scan_files_extends:
  assumes "set ss \<subseteq> fst ` set results"
  shows "\<exists>results'. scan_files env wanted ss subdir files results = Inr results' \<and>
           extends results
             (\<lambda>k. repeated (count_list ss k) (matching_paths env wanted [(subdir, files)] k))
             results'"
  using assms
proof (induction files arbitrary: results)
  case Nil
  then show ?case
    by (simp add: extends_refl matching_paths_dir_Nil matching_paths_Nil repeated_Nil)
next
  case (Cons name files)
  let ?p = "os_path_join env subdir name"
  let ?rest = "\<lambda>k. repeated (count_list ss k) (matching_paths env wanted [(subdir, files)] k)"
  let ?all = "\<lambda>k. repeated (count_list ss k) (matching_paths env wanted [(subdir, name # files)] k)"
  show ?case
  proof (cases "wanted name \<and> read_text env ?p \<noteq> None")
    case False
    from Cons.IH[OF Cons.prems] obtain r where
      r: "scan_files env wanted ss subdir files results = Inr r" and e: "extends results ?rest r"
      by blast
    have "?all = ?rest"
      using False by (auto simp: matching_paths_dir_Cons text_has_def)
    with e have "extends results ?all r" by simp
    moreover have "scan_files env wanted ss subdir (name # files) results = Inr r"
      using False r by (auto simp: Let_def)
    ultimately show ?thesis by blast
  next
    case True
    then obtain content where c: "read_text env ?p = Some content" and w: "wanted name"
      by auto
    from record_matches_extends[OF Cons.prems, of content ?p] obtain r1 where
      r1: "record_matches ss content ?p results = Inr r1"
      and e1: "extends results
             (\<lambda>k. if contains k content then replicate (count_list ss k) ?p else []) r1"
      by blast
    have "set ss \<subseteq> fst ` set r1"
      using Cons.prems extends_keys[OF e1] by simp
    from Cons.IH[OF this] obtain r where
      r: "scan_files env wanted ss subdir files r1 = Inr r" and e: "extends r1 ?rest r"
      by blast
    have "extends results ?all r"
      using e1 e
    proof (rule extends_trans)
      fix k
      show "?all k = (if contains k content then replicate (count_list ss k) ?p else []) @ ?rest k"
        using c w
        by (simp add: matching_paths_dir_Cons text_has_def repeated_append repeated_single
            repeated_Nil)
    qed
    moreover have "scan_files env wanted ss subdir (name # files) results = Inr r"
      using c w r1 r by (simp add: Let_def)
    ultimately show ?thesis by blast
  qed
qed

lemma matching_paths_dirs_Cons:
  "matching_paths env wanted ((subdir, files) # dirs) needle =
     matching_paths env wanted [(subdir, files)] needle @ matching_paths env wanted dirs needle"
  by (simp add: matching_paths_def walk_entries_Cons walk_entries_Nil)

lemma scan_dirs_extends:
  assumes "set ss \<subseteq> fst ` set results"
  shows "\<exists>results'. scan_dirs env wanted ss dirs results = Inr results' \<and>
           extends results
             (\<lambda>k. repeated (count_list ss k) (matching_paths env wanted dirs k)) results'"
  using assms
proof (induction dirs arbitrary: results)
  case Nil
  then show ?case by (simp add: extends_refl matching_paths_Nil repeated_Nil)
next
  case (Cons d dirs)
  obtain subdir files where d: "d = (subdir, files)" by (cases d)
  from scan_files_extends[OF Cons.prems, of env wanted subdir files] obtain r1 where
    r1: "scan_files env wanted ss subdir files results = Inr r1"
    and e1: "extends results
      (\<lambda>k. repeated (count_list ss k) (matching_paths env wanted [(subdir, files)] k)) r1"
    by blast
  have "set ss \<subseteq> fst ` set r1"
    using Cons.prems extends_keys[OF e1] by simp
  from Cons.IH[OF this] obtain r where
    r: "scan_dirs env wanted ss dirs r1 = Inr r"
    and e: "extends r1 (\<lambda>k. repeated (count_list ss k) (matching_paths env wanted dirs k)) r"
    by blast
  have "extends results
      (\<lambda>k. repeated (count_list ss k) (matching_paths env wanted (d # dirs) k)) r"
    using e1 e
  proof (rule extends_trans)
    fix k
    show "repeated (count_list ss k) (matching_paths env wanted (d # dirs) k) =
          repeated (count_list ss k) (matching_paths env wanted [(subdir, files)] k) @
          repeated (count_list ss k) (matching_paths env wanted dirs k)"
      unfolding d by (subst matching_paths_dirs_Cons) (simp add: repeated_append)
  qed
  moreover have "scan_dirs env wanted ss (d # dirs) results = Inr r"
    using d r1 r by simp
  ultimately show ?case by blast
qed

text \<open>The result of a list-keyed scan, in full.\<close>

lemma scan_tree_result:
  "\<exists>results. scan_dirs env wanted ss dirs (empty_results ss) = Inr results \<and>
     fst ` set results = set ss \<and> distinct (map fst results) \<and>
     (\<forall>k \<in> set ss. map_of results k =
        Some (repeated (count_list ss k) (matching_paths env wanted dirs k)))"
proof -
  have "set ss \<subseteq> fst ` set (empty_results ss)"
    by (simp add: empty_results_keys)
  from scan_dirs_extends[OF this, of env wanted dirs] obtain r where
    r: "scan_dirs env wanted ss dirs (empty_results ss) = Inr r"
    and e: "extends (empty_results ss)
      (\<lambda>k. repeated (count_list ss k) (matching_paths env wanted dirs k)) r"
    by blast
  have "fst ` set r = set ss"
    using extends_keys[OF e] by (simp add: empty_results_keys)
  moreover have "distinct (map fst r)"
    using e by (simp add: extends_def empty_results_distinct)
  moreover have "\<forall>k \<in> set ss. map_of r k =
        Some (repeated (count_list ss k) (matching_paths env wanted dirs k))"
    using e by (simp add: extends_def empty_results_map_of)
  ultimately show ?thesis using r by blast
qed

lemma repeated_one: "repeated (Suc 0) paths = paths"
  by (induction paths) (simp_all add: repeated_def)

lemma repeated_zero: "repeated 0 paths = []"
  by (induction paths) (simp_all add: repeated_def)

lemma count_list_distinct: "distinct xs \<Longrightarrow> x \<in> set xs \<Longrightarrow> count_list xs x = Suc 0"
  by (induction xs) (auto simp: count_list_0_iff)

lemma matching_paths_distinct:
  "distinct (walk_paths env root_path) \<Longrightarrow>
   distinct (matching_paths env wanted (os_walk env root_path) needle)"
  unfolding walk_paths_def matching_paths_def by (rule distinct_map_filter)

text \<open>
  Claim C6.  For every list of search strings and every tree, the sql scanner and the
  by-table correlator return without an exception, and the map each returns has exactly
  the search strings as its keys; a search string that no scanned file contains is a key
  with the empty list, never an absent key.
\<close>

theorem table_keys_always_present:
  "\<exists>sql py.
     find_strings_in_sql_files env search_data root_path = Inr sql \<and>
     find_list_strings_in_py_files env search_data root_path = Inr py \<and>
     fst ` set sql = set search_data \<and> fst ` set py = set search_data \<and>
     (\<forall>s \<in> set search_data. (\<exists>v. map_of sql s = Some v) \<and> (\<exists>v. map_of py s = Some v)) \<and>
     (\<forall>s \<in> set search_data.
        matching_paths env is_sql_file (os_walk env root_path) s = [] \<longrightarrow>
        map_of sql s = Some []) \<and>
     (\<forall>s \<in> set search_data.
        matching_paths env is_py_file (os_walk env root_path) s = [] \<longrightarrow>
        map_of py s = Some [])"
proof -
  obtain sql where s1: "scan_dirs env is_sql_file search_data (os_walk env root_path)
        (empty_results search_data) = Inr sql"
    and s2: "fst ` set sql = set search_data"
    and s3: "\<forall>k \<in> set search_data. map_of sql k =
        Some (repeated (count_list search_data k)
               (matching_paths env is_sql_file (os_walk env root_path) k))"
    using scan_tree_result[of env is_sql_file search_data "os_walk env root_path"] by blast
  obtain py where p1: "scan_dirs env is_py_file search_data (os_walk env root_path)
        (empty_results search_data) = Inr py"
    and p2: "fst ` set py = set search_data"
    and p3: "\<forall>k \<in> set search_data. map_of py k =
        Some (repeated (count_list search_data k)
               (matching_paths env is_py_file (os_walk env root_path) k))"
    using scan_tree_result[of env is_py_file search_data "os_walk env root_path"] by blast
  have "find_strings_in_sql_files env search_data root_path = Inr sql"
    using s1 by (simp add: find_strings_in_sql_files_def)
  moreover have "find_list_strings_in_py_files env search_data root_path = Inr py"
    using p1 by (simp add: find_list_strings_in_py_files_def)
  moreover have "\<forall>s \<in> set search_data. (\<exists>v. map_of sql s = Some v) \<and> (\<exists>v. map_of py s = Some v)"
    using s3 p3 by simp
  moreover have "\<forall>s \<in> set search_data.
        matching_paths env is_sql_file (os_walk env root_path) s = [] \<longrightarrow> map_of sql s = Some []"
    using s3 by (simp add: repeated_Nil)
  moreover have "\<forall>s \<in> set search_data.
        matching_paths env is_py_file (os_walk env root_path) s = [] \<longrightarrow> map_of py s = Some []"
    using p3 by (simp add: repeated_Nil)
  ultimately show ?thesis using s2 p2 by blast
qed

lemma ex_walk: "os_walk ex_env ''pipeline'' =
  [(''pipeline'', [''table_list.sql'', ''readme.txt'']),
   (''pipeline'' @ [sep] @ ''sales'', [''load.sql'', ''dag.py'', ''other.py''])]"
  by (simp add: ex_env_def)

lemma ex_no_sql_for_CD:
  "matching_paths ex_env is_sql_file (os_walk ex_env ''pipeline'') ''C.D'' = []"
  unfolding ex_walk
  by (simp add: matching_paths_def walk_entries_def entry_path_def text_has_def ex_env_def
      is_sql_file_def endswith_def sep_def)

lemma ex_no_py_for_CD:
  "matching_paths ex_env is_py_file (os_walk ex_env ''pipeline'') ''C.D'' = []"
  unfolding ex_walk
  by (simp add: matching_paths_def walk_entries_def entry_path_def text_has_def ex_env_def
      is_py_file_def endswith_def sep_def)

theorem table_keys_always_present_witness:
  "''C.D'' \<in> set [''A.B'', ''C.D''] \<and>
   matching_paths ex_env is_sql_file (os_walk ex_env ''pipeline'') ''C.D'' = [] \<and>
   matching_paths ex_env is_py_file (os_walk ex_env ''pipeline'') ''C.D'' = [] \<and>
   (\<exists>sql py.
      find_strings_in_sql_files ex_env [''A.B'', ''C.D''] ''pipeline'' = Inr sql \<and>
      find_list_strings_in_py_files ex_env [''A.B'', ''C.D''] ''pipeline'' = Inr py \<and>
      map_of sql ''C.D'' = Some [] \<and> map_of py ''C.D'' = Some [])"
proof -
  have m: "''C.D'' \<in> set [''A.B'', ''C.D'']" by simp
  from table_keys_always_present[of ex_env "[''A.B'', ''C.D'']" "''pipeline''"]
  obtain sql py where
    a: "find_strings_in_sql_files ex_env [''A.B'', ''C.D''] ''pipeline'' = Inr sql"
    and b: "find_list_strings_in_py_files ex_env [''A.B'', ''C.D''] ''pipeline'' = Inr py"
    and c: "\<forall>s \<in> set [''A.B'', ''C.D''].
        matching_paths ex_env is_sql_file (os_walk ex_env ''pipeline'') s = [] \<longrightarrow>
        map_of sql s = Some []"
    and d: "\<forall>s \<in> set [''A.B'', ''C.D''].
        matching_paths ex_env is_py_file (os_walk ex_env ''pipeline'') s = [] \<longrightarrow>
        map_of py s = Some []"
    by blast
  from c m ex_no_sql_for_CD have "map_of sql ''C.D'' = Some []" by blast
  moreover from d m ex_no_py_for_CD have "map_of py ''C.D'' = Some []" by blast
  ultimately show ?thesis using m a b ex_no_sql_for_CD ex_no_py_for_CD by blast
qed

text \<open>
  Claim C10, amended.  When the walk yields every file path once and no table name is
  repeated in the search list, every list of the by-table correlator holds a path at most
  once.
\<close>

theorem by_table_lists_distinct:
  assumes "distinct search_data" and "distinct (walk_paths env root_path)"
  shows "\<exists>py. find_list_strings_in_py_files env search_data root_path = Inr py \<and>
           (\<forall>(k, v) \<in> set py. distinct v)"
proof -
  obtain py where p1: "scan_dirs env is_py_file search_data (os_walk env root_path)
        (empty_results search_data) = Inr py"
    and p2: "fst ` set py = set search_data"
    and p3: "distinct (map fst py)"
    and p4: "\<forall>k \<in> set search_data. map_of py k =
        Some (repeated (count_list search_data k)
               (matching_paths env is_py_file (os_walk env root_path) k))"
    using scan_tree_result[of env is_py_file search_data "os_walk env root_path"] by blast
  have "distinct v" if kv: "(k, v) \<in> set py" for k v
  proof -
    have k: "k \<in> set search_data"
      using kv p2 by force
    have "map_of py k = Some v"
      using kv p3 by simp
    with p4 k have "v = repeated (count_list search_data k)
               (matching_paths env is_py_file (os_walk env root_path) k)"
      by simp
    also have "\<dots> = matching_paths env is_py_file (os_walk env root_path) k"
      using count_list_distinct[OF assms(1) k] by (simp add: repeated_one)
    finally show ?thesis
      using matching_paths_distinct[OF assms(2)] by simp
  qed
  then have "\<forall>(k, v) \<in> set py. distinct v" by auto
  moreover have "find_list_strings_in_py_files env search_data root_path = Inr py"
    using p1 by (simp add: find_list_strings_in_py_files_def)
  ultimately show ?thesis by blast
qed

lemma ex_walk_paths_distinct: "distinct (walk_paths ex_env ''pipeline'')"
  by (simp add: walk_paths_def ex_walk walk_entries_def entry_path_def ex_env_def sep_def)

lemma ex_scan_twice:
  "find_list_strings_in_py_files ex_env [''A.B'', ''A.B''] ''pipeline'' =
     Inr [(''A.B'', [ex_dag_py, ex_dag_py])]"
  unfolding find_list_strings_in_py_files_def ex_walk
  by (simp add: empty_results_def ex_env_def is_py_file_def endswith_def sep_def
      dict_append_def ex_dag_py_def Let_def)

text \<open>
  The proviso on the walk alone is not enough: a table name that stands twice in the
  search list gets a script twice, although the walk yields every path once.
\<close>

theorem by_table_repeated_name_counterexample:
  "distinct (walk_paths ex_env ''pipeline'') \<and>
   find_list_strings_in_py_files ex_env [''A.B'', ''A.B''] ''pipeline'' =
     Inr [(''A.B'', [ex_dag_py, ex_dag_py])] \<and>
   \<not> distinct [ex_dag_py, ex_dag_py]"
  using ex_walk_paths_distinct ex_scan_twice by simp

theorem by_table_lists_distinct_witness:
  "distinct [''A.B'', ''C.D''] \<and> distinct (walk_paths ex_env ''pipeline'') \<and>
   find_list_strings_in_py_files ex_env [''A.B'', ''C.D''] ''pipeline'' =
     Inr [(''A.B'', [ex_dag_py]), (''C.D'', [])] \<and>
   distinct [ex_dag_py] \<and> distinct ([] :: string list)"
proof -
  have d: "distinct [''A.B'', ''C.D'']" by simp
  have e: "find_list_strings_in_py_files ex_env [''A.B'', ''C.D''] ''pipeline'' =
     Inr [(''A.B'', [ex_dag_py]), (''C.D'', [])]"
    unfolding find_list_strings_in_py_files_def ex_walk
    by (simp add: empty_results_def ex_env_def is_py_file_def endswith_def sep_def
      dict_append_def ex_dag_py_def Let_def)
  from by_table_lists_distinct[OF d ex_walk_paths_distinct] e
  have "\<forall>(k, v) \<in> set [(''A.B'', [ex_dag_py]), (''C.D'', [])]. distinct v"
    by simp
  then have "distinct [ex_dag_py] \<and> distinct ([] :: string list)" by simp
  with d ex_walk_paths_distinct e show ?thesis by blast
qed

section \<open>Properties of the scanner keyed by sql path\<close>

subsection \<open>The loops of the scanner keyed by sql path\<close>

lemma grows_refl: "(\<And>k. added k = {}) \<Longrightarrow> grows results added results"
  by (simp add: grows_def)

lemma grows_keys: "grows r a r' \<Longrightarrow> fst ` set r' = fst ` set r"
  by (metis grows_def set_map)

lemma grows_trans:
  assumes "grows r0 a1 r1" and "grows r1 a2 r2" and "\<And>k. a k = a1 k \<union> a2 k"
  shows "grows r0 a r2"
  unfolding grows_def
proof (intro conjI allI impI)
  show "map fst r2 = map fst r0"
    using assms(1,2) by (simp add: grows_def)
next
  fix k v assume "map_of r0 k = Some v"
  with assms(1) obtain v1 where v1: "map_of r1 k = Some v1" "set v1 = set v \<union> a1 k"
    "distinct v \<longrightarrow> distinct v1"
    unfolding grows_def by blast
  with assms(2) obtain v2 where v2: "map_of r2 k = Some v2" "set v2 = set v1 \<union> a2 k"
    "distinct v1 \<longrightarrow> distinct v2"
    unfolding grows_def by blast
  show "\<exists>v'. map_of r2 k = Some v' \<and> set v' = set v \<union> a k \<and> (distinct v \<longrightarrow> distinct v')"
    using v1 v2 assms(3) by auto
qed

lemma grows_cong:
  assumes "grows r a r'" and "\<And>k. k \<in> fst ` set r \<Longrightarrow> a k = b k"
  shows "grows r b r'"
  unfolding grows_def
proof (intro conjI allI impI)
  show "map fst r' = map fst r"
    using assms(1) by (simp add: grows_def)
next
  fix k v assume kv: "map_of r k = Some v"
  then have "k \<in> fst ` set r"
    by (metis map_of_eq_None_iff option.distinct(1))
  then have "a k = b k" by (rule assms(2))
  moreover from assms(1) kv obtain v' where "map_of r' k = Some v'" "set v' = set v \<union> a k"
    "distinct v \<longrightarrow> distinct v'"
    unfolding grows_def by blast
  ultimately show "\<exists>v'. map_of r' k = Some v' \<and> set v' = set v \<union> b k \<and>
                      (distinct v \<longrightarrow> distinct v')"
    by auto
qed

lemma grows_update:
  assumes "map_of results key = Some paths" and "p \<notin> set paths"
  shows "grows results (\<lambda>k. if k = key then {p} else {})
           (AList.update key (paths @ [p]) results)"
proof -
  have "key \<in> set (map fst results)"
    using assms(1) by (metis map_of_eq_None_iff option.distinct(1) set_map)
  then have "map fst (AList.update key (paths @ [p]) results) = map fst results"
    by (simp add: update_keys)
  then show ?thesis
    using assms by (auto simp: grows_def update_conv')
qed

lemma grows_same:
  assumes "map_of results key = Some paths" and "p \<in> set paths"
  shows "grows results (\<lambda>k. if k = key then {p} else {}) results"
  using assms by (auto simp: grows_def)

lemma record_stem_matches_grows:
  assumes "set ks \<subseteq> fst ` set results"
  shows "\<exists>results'. record_stem_matches env ks content file_path results = Inr results' \<and>
           grows results
             (\<lambda>k. if k \<in> set ks \<and> contains (get_filename_from_path env k) content
                  then {file_path} else {})
             results'"
  using assms
proof (induction ks arbitrary: results)
  case Nil
  then show ?case by (simp add: grows_refl)
next
  case (Cons s ks)
  let ?hit = "\<lambda>ks k. if k \<in> set ks \<and> contains (get_filename_from_path env k) content
                  then {file_path} else {}"
  show ?case
  proof (cases "contains (get_filename_from_path env s) content")
    case False
    from Cons.prems have "set ks \<subseteq> fst ` set results" by simp
    from Cons.IH[OF this] obtain r where
      r: "record_stem_matches env ks content file_path results = Inr r"
      and g: "grows results (?hit ks) r"
      by blast
    have "?hit (s # ks) = ?hit ks"
      using False by (intro ext) auto
    with g have "grows results (?hit (s # ks)) r" by simp
    with r False show ?thesis by simp
  next
    case True
    from Cons.prems obtain paths where p: "map_of results s = Some paths"
      using key_has_value[of s results] by auto
    let ?r1 = "if file_path \<notin> set paths
               then AList.update s (paths @ [file_path]) results else results"
    have g1: "grows results (\<lambda>k. if k = s then {file_path} else {}) ?r1"
      using p by (simp add: grows_update grows_same)
    have "set ks \<subseteq> fst ` set ?r1"
      using Cons.prems grows_keys[OF g1] by simp
    from Cons.IH[OF this] obtain r where
      r: "record_stem_matches env ks content file_path ?r1 = Inr r"
      and g: "grows ?r1 (?hit ks) r"
      by blast
    have "grows results (?hit (s # ks)) r"
      using g1 g
    proof (rule grows_trans)
      fix k
      show "?hit (s # ks) k = (if k = s then {file_path} else {}) \<union> ?hit ks k"
        using True by auto
    qed
    moreover have "record_stem_matches env (s # ks) content file_path results = Inr r"
      using True p r by (simp split: if_splits)
    ultimately show ?thesis by blast
  qed
qed

lemma scan_stem_files_grows:
  "\<exists>results'. scan_stem_files env subdir files results = Inr results' \<and>
     grows results
       (\<lambda>k. set (matching_paths env is_py_file [(subdir, files)] (get_filename_from_path env k)))
       results'"
proof (induction files arbitrary: results)
  case Nil
  show ?case by (simp add: grows_refl matching_paths_dir_Nil matching_paths_Nil)
next
  case (Cons name files)
  let ?p = "os_path_join env subdir name"
  let ?rest = "\<lambda>r k. set (matching_paths env is_py_file [(subdir, files)]
                         (get_filename_from_path env k))"
  let ?all = "\<lambda>k. set (matching_paths env is_py_file [(subdir, name # files)]
                         (get_filename_from_path env k))"
  show ?case
  proof (cases "is_py_file name \<and> read_text env ?p \<noteq> None")
    case False
    from Cons.IH[of results] obtain r where
      r: "scan_stem_files env subdir files results = Inr r"
      and g: "grows results (?rest r) r"
      by blast
    have "?all = ?rest r"
      using False by (auto simp: matching_paths_dir_Cons text_has_def)
    with g have "grows results ?all r" by simp
    moreover have "scan_stem_files env subdir (name # files) results = Inr r"
      using False r by (auto simp: Let_def is_py_file_def)
    ultimately show ?thesis by blast
  next
    case True
    then obtain content where c: "read_text env ?p = Some content" and w: "is_py_file name"
      by auto
    have "set (map fst results) \<subseteq> fst ` set results" by simp
    from record_stem_matches_grows[OF this, of env content ?p] obtain r1 where
      r1: "record_stem_matches env (map fst results) content ?p results = Inr r1"
      and g1: "grows results
             (\<lambda>k. if k \<in> set (map fst results) \<and> contains (get_filename_from_path env k) content
                  then {?p} else {}) r1"
      by blast
    have g1': "grows results
             (\<lambda>k. if contains (get_filename_from_path env k) content then {?p} else {}) r1"
      using g1 by (rule grows_cong) simp
    from Cons.IH[of r1] obtain r where
      r: "scan_stem_files env subdir files r1 = Inr r" and g: "grows r1 (?rest r) r"
      by blast
    have "grows results ?all r"
      using g1' g
    proof (rule grows_trans)
      fix k
      show "?all k = (if contains (get_filename_from_path env k) content then {?p} else {}) \<union>
                     ?rest r k"
        using c w by (simp add: matching_paths_dir_Cons text_has_def)
    qed
    moreover have "scan_stem_files env subdir (name # files) results = Inr r"
      using c w r1 r by (simp add: Let_def is_py_file_def)
    ultimately show ?thesis by blast
  qed
qed

lemma scan_stem_dirs_grows:
  "\<exists>results'. scan_stem_dirs env dirs results = Inr results' \<and>
     grows results
       (\<lambda>k. set (matching_paths env is_py_file dirs (get_filename_from_path env k))) results'"
proof (induction dirs arbitrary: results)
  case Nil
  show ?case by (simp add: grows_refl matching_paths_Nil)
next
  case (Cons d dirs)
  obtain subdir files where d: "d = (subdir, files)" by (cases d)
  from scan_stem_files_grows[of env subdir files results] obtain r1 where
    r1: "scan_stem_files env subdir files results = Inr r1"
    and g1: "grows results
      (\<lambda>k. set (matching_paths env is_py_file [(subdir, files)] (get_filename_from_path env k))) r1"
    by blast
  from Cons.IH[of r1] obtain r where
    r: "scan_stem_dirs env dirs r1 = Inr r"
    and g: "grows r1
      (\<lambda>k. set (matching_paths env is_py_file dirs (get_filename_from_path env k))) r"
    by blast
  have "grows results
      (\<lambda>k. set (matching_paths env is_py_file (d # dirs) (get_filename_from_path env k))) r"
    using g1 g
  proof (rule grows_trans)
    fix k
    show "set (matching_paths env is_py_file (d # dirs) (get_filename_from_path env k)) =
          set (matching_paths env is_py_file [(subdir, files)] (get_filename_from_path env k)) \<union>
          set (matching_paths env is_py_file dirs (get_filename_from_path env k))"
      unfolding d by (subst matching_paths_dirs_Cons) simp
  qed
  moreover have "scan_stem_dirs env (d # dirs) results = Inr r"
    using d r1 r by simp
  ultimately show ?case by blast
qed

text \<open>The result of the by-stem scan before the final filter, in full.\<close>

lemma scan_stem_result:
  "\<exists>results. scan_stem_dirs env dirs (empty_results ss) = Inr results \<and>
     fst ` set results = set ss \<and> distinct (map fst results) \<and>
     (\<forall>k \<in> set ss. \<exists>v. map_of results k = Some v \<and> distinct v \<and>
        set v = set (matching_paths env is_py_file dirs (get_filename_from_path env k)))"
proof -
  from scan_stem_dirs_grows[of env dirs "empty_results ss"] obtain r where
    r: "scan_stem_dirs env dirs (empty_results ss) = Inr r"
    and g: "grows (empty_results ss)
      (\<lambda>k. set (matching_paths env is_py_file dirs (get_filename_from_path env k))) r"
    by blast
  have "fst ` set r = set ss"
    using grows_keys[OF g] by (simp add: empty_results_keys)
  moreover have "distinct (map fst r)"
    using g by (simp add: grows_def empty_results_distinct)
  moreover have "\<exists>v. map_of r k = Some v \<and> distinct v \<and>
        set v = set (matching_paths env is_py_file dirs (get_filename_from_path env k))"
    if "k \<in> set ss" for k
  proof -
    have "map_of (empty_results ss) k = Some []"
      using that by (simp add: empty_results_map_of)
    with g show ?thesis unfolding grows_def by fastforce
  qed
  ultimately show ?thesis using r by blast
qed

lemma distinct_keys_filter: "distinct (map fst r) \<Longrightarrow> distinct (map fst (filter P r))"
  by (rule distinct_map_filter)

text \<open>
  Claim C7.  The by-stem correlator returns without an exception, and in the map it
  returns every list holds a script path at most once, however often the stem occurs in
  the text of the script and however often the walk yields the script.
\<close>

theorem by_stem_lists_distinct:
  "\<exists>r. find_dict_strings_in_py_files env search_data root_path = Inr r \<and>
       distinct (map fst r) \<and> (\<forall>(k, v) \<in> set r. distinct v)"
proof -
  let ?ss = "concat (map snd search_data)"
  obtain r0 where a: "scan_stem_dirs env (os_walk env root_path) (empty_results ?ss) = Inr r0"
    and b: "fst ` set r0 = set ?ss" and c: "distinct (map fst r0)"
    and d: "\<forall>k \<in> set ?ss. \<exists>v. map_of r0 k = Some v \<and> distinct v \<and>
        set v = set (matching_paths env is_py_file (os_walk env root_path)
                       (get_filename_from_path env k))"
    using scan_stem_result[of env "os_walk env root_path" ?ss] by blast
  let ?r = "filter (\<lambda>(key, value). value \<noteq> []) r0"
  have "find_dict_strings_in_py_files env search_data root_path = Inr ?r"
    using a by (simp add: find_dict_strings_in_py_files_def Let_def)
  moreover have "distinct (map fst ?r)"
    using c by (rule distinct_keys_filter)
  moreover have "distinct v" if "(k, v) \<in> set ?r" for k v
  proof -
    from that have kv: "(k, v) \<in> set r0" by simp
    then have "k \<in> set ?ss" using b by force
    moreover have "map_of r0 k = Some v" using kv c by simp
    ultimately show ?thesis using d by fastforce
  qed
  ultimately show ?thesis by blast
qed

text \<open>
  Claim C9.  Every key of the map that the by-stem correlator returns has a non-empty
  list: an sql path whose stem occurs in no script that was read is not a key of the
  result, and an sql path of the input whose stem occurs in one is.  The by-table
  correlator, on the same tree, keeps a name that occurs in no script as a key with the
  empty list.
\<close>

theorem by_stem_drops_unmatched:
  "\<exists>r. find_dict_strings_in_py_files env search_data root_path = Inr r \<and>
       (\<forall>(k, v) \<in> set r. v \<noteq> []) \<and>
       (\<forall>k. matching_paths env is_py_file (os_walk env root_path)
              (get_filename_from_path env k) = [] \<longrightarrow> k \<notin> fst ` set r) \<and>
       (\<forall>k \<in> set (concat (map snd search_data)).
          matching_paths env is_py_file (os_walk env root_path)
              (get_filename_from_path env k) \<noteq> [] \<longrightarrow> k \<in> fst ` set r) \<and>
       (\<forall>names. \<forall>s \<in> set names.
          matching_paths env is_py_file (os_walk env root_path) s = [] \<longrightarrow>
          (\<exists>py. find_list_strings_in_py_files env names root_path = Inr py \<and>
                map_of py s = Some []))"
proof -
  let ?ss = "concat (map snd search_data)"
  let ?m = "\<lambda>k. matching_paths env is_py_file (os_walk env root_path)
                       (get_filename_from_path env k)"
  obtain r0 where a: "scan_stem_dirs env (os_walk env root_path) (empty_results ?ss) = Inr r0"
    and b: "fst ` set r0 = set ?ss" and c: "distinct (map fst r0)"
    and d: "\<forall>k \<in> set ?ss. \<exists>v. map_of r0 k = Some v \<and> distinct v \<and> set v = set (?m k)"
    using scan_stem_result[of env "os_walk env root_path" ?ss] by blast
  let ?r = "filter (\<lambda>(key, value). value \<noteq> []) r0"
  have "find_dict_strings_in_py_files env search_data root_path = Inr ?r"
    using a by (simp add: find_dict_strings_in_py_files_def Let_def)
  moreover have "\<forall>(k, v) \<in> set ?r. v \<noteq> []"
    by auto
  moreover have "k \<notin> fst ` set ?r" if e: "?m k = []" for k
  proof
    assume "k \<in> fst ` set ?r"
    then obtain v where kv: "(k, v) \<in> set r0" and ne: "v \<noteq> []" by auto
    then have "k \<in> set ?ss" using b by force
    moreover have "map_of r0 k = Some v" using kv c by simp
    ultimately have "set v = set (?m k)" using d by fastforce
    with e ne show False by simp
  qed
  moreover have "k \<in> fst ` set ?r" if k: "k \<in> set ?ss" and ne: "?m k \<noteq> []" for k
  proof -
    from d k obtain v where v: "map_of r0 k = Some v" "set v = set (?m k)" by blast
    with ne have "v \<noteq> []" by auto
    moreover have "(k, v) \<in> set r0" using v(1) by (rule map_of_SomeD)
    ultimately have "(k, v) \<in> set ?r" by simp
    then show ?thesis by force
  qed
  moreover have "\<exists>py. find_list_strings_in_py_files env names root_path = Inr py \<and>
                map_of py s = Some []"
    if s: "s \<in> set names"
      and e: "matching_paths env is_py_file (os_walk env root_path) s = []" for names s
  proof -
    obtain py where p1: "scan_dirs env is_py_file names (os_walk env root_path)
        (empty_results names) = Inr py"
      and p2: "\<forall>k \<in> set names. map_of py k =
        Some (repeated (count_list names k)
               (matching_paths env is_py_file (os_walk env root_path) k))"
      using scan_tree_result[of env is_py_file names "os_walk env root_path"] by blast
    from p2 s e have "map_of py s = Some []"
      by (simp add: repeated_Nil)
    with p1 show ?thesis
      by (simp add: find_list_strings_in_py_files_def)
  qed
  ultimately show ?thesis by blast
qed

lemma ex_by_stem:
  "find_dict_strings_in_py_files ex_env ex_sql_file_paths ''pipeline'' =
     Inr [(ex_load_sql, [ex_dag_py])]"
  by code_simp

theorem by_stem_lists_distinct_witness:
  "find_dict_strings_in_py_files ex_env ex_sql_file_paths ''pipeline'' =
     Inr [(ex_load_sql, [ex_dag_py])] \<and>
   distinct [ex_dag_py]"
proof -
  from by_stem_lists_distinct[of ex_env ex_sql_file_paths "''pipeline''"]
  have "\<forall>(k, v) \<in> set [(ex_load_sql, [ex_dag_py])]. distinct v"
    unfolding ex_by_stem by simp
  then show ?thesis using ex_by_stem by simp
qed

lemma ex_zz_unmatched:
  "matching_paths ex_env is_py_file (os_walk ex_env ''pipeline'')
     (get_filename_from_path ex_env ''zz.sql'') = []"
  by code_simp

theorem by_stem_drops_unmatched_witness:
  "''zz.sql'' \<in> set (concat (map snd ex_sql_file_paths)) \<and>
   matching_paths ex_env is_py_file (os_walk ex_env ''pipeline'')
     (get_filename_from_path ex_env ''zz.sql'') = [] \<and>
   (\<exists>r. find_dict_strings_in_py_files ex_env ex_sql_file_paths ''pipeline'' = Inr r \<and>
        ''zz.sql'' \<notin> fst ` set r) \<and>
   find_dict_strings_in_py_files ex_env ex_sql_file_paths ''pipeline'' =
     Inr [(ex_load_sql, [ex_dag_py])]"
proof -
  have m: "''zz.sql'' \<in> set (concat (map snd ex_sql_file_paths))"
    by (simp add: ex_sql_file_paths_def)
  from by_stem_drops_unmatched[of ex_env ex_sql_file_paths "''pipeline''"]
  have "\<exists>r. find_dict_strings_in_py_files ex_env ex_sql_file_paths ''pipeline'' = Inr r \<and>
        (\<forall>k. matching_paths ex_env is_py_file (os_walk ex_env ''pipeline'')
              (get_filename_from_path ex_env k) = [] \<longrightarrow> k \<notin> fst ` set r)"
    by (elim exE conjE) (rule exI, rule conjI, assumption, assumption)
  with ex_zz_unmatched
  have "\<exists>r. find_dict_strings_in_py_files ex_env ex_sql_file_paths ''pipeline'' = Inr r \<and>
        ''zz.sql'' \<notin> fst ` set r"
    by blast
  with m ex_zz_unmatched ex_by_stem show ?thesis by blast
qed

section \<open>Properties of owner extraction\<close>

subsection \<open>Matching, piece by piece\<close>

lemma fullmatch_Nil: "fullmatch r [] = blank_ok r"
  by (simp add: fullmatch_def)

lemma fullmatch_Cons: "fullmatch r (c # w) = fullmatch (residual c r) w"
  by (simp add: fullmatch_def)

lemma fullmatch_Nothing: "\<not> fullmatch Nothing w"
  by (induction w) (simp_all add: fullmatch_Nil fullmatch_Cons)

lemma fullmatch_Blank: "fullmatch Blank w \<longleftrightarrow> w = []"
  by (cases w) (simp_all add: fullmatch_Nil fullmatch_Cons fullmatch_Nothing)

lemma fullmatch_Class: "fullmatch (Class P) w \<longleftrightarrow> (\<exists>c. w = [c] \<and> P c)"
  by (cases w) (simp_all add: fullmatch_Nil fullmatch_Cons fullmatch_Nothing fullmatch_Blank)

lemma fullmatch_Alt: "fullmatch (Alt r s) w \<longleftrightarrow> fullmatch r w \<or> fullmatch s w"
  by (induction w arbitrary: r s) (simp_all add: fullmatch_Nil fullmatch_Cons)

lemma fullmatch_Cat:
  "fullmatch (Cat r s) w \<longleftrightarrow> (\<exists>u v. w = u @ v \<and> fullmatch r u \<and> fullmatch s v)"
proof (induction w arbitrary: r)
  case Nil
  show ?case by (simp add: fullmatch_Nil)
next
  case (Cons c w)
  have split: "(\<exists>u v. c # w = u @ v \<and> fullmatch r u \<and> fullmatch s v) \<longleftrightarrow>
        (blank_ok r \<and> fullmatch s (c # w)) \<or>
        (\<exists>u v. w = u @ v \<and> fullmatch (residual c r) u \<and> fullmatch s v)"
    (is "?L \<longleftrightarrow> ?A \<or> ?B")
  proof
    assume ?L
    then obtain u v where uv: "c # w = u @ v" "fullmatch r u" "fullmatch s v" by blast
    show "?A \<or> ?B"
    proof (cases u)
      case Nil
      with uv show ?thesis by (simp add: fullmatch_Nil)
    next
      case (Cons d u')
      with uv have "w = u' @ v" "fullmatch (residual c r) u'"
        by (simp_all add: fullmatch_Cons)
      with uv(3) show ?thesis by blast
    qed
  next
    assume "?A \<or> ?B"
    then show ?L
    proof
      assume ?A
      then have "c # w = [] @ (c # w) \<and> fullmatch r [] \<and> fullmatch s (c # w)"
        by (simp add: fullmatch_Nil)
      then show ?L by blast
    next
      assume ?B
      then obtain u v where "w = u @ v" "fullmatch (residual c r) u" "fullmatch s v" by blast
      then have "c # w = (c # u) @ v \<and> fullmatch r (c # u) \<and> fullmatch s v"
        by (simp add: fullmatch_Cons)
      then show ?L by blast
    qed
  qed
  show ?case
    unfolding split
    by (auto simp add: fullmatch_Cons fullmatch_Alt Cons.IH)
qed

lemma fullmatch_Rep_Class: "fullmatch (Rep (Class P)) w \<longleftrightarrow> list_all P w"
proof (induction w)
  case Nil
  show ?case by (simp add: fullmatch_Nil)
next
  case (Cons c w)
  show ?case
    by (simp add: fullmatch_Cons fullmatch_Cat fullmatch_Blank fullmatch_Nothing Cons.IH)
qed

lemma fullmatch_lit: "fullmatch (lit c) w \<longleftrightarrow> w = [c]"
  by (auto simp: lit_def fullmatch_Class)

lemma fullmatch_opt: "fullmatch (opt r) w \<longleftrightarrow> fullmatch r w \<or> w = []"
  by (simp add: opt_def fullmatch_Alt fullmatch_Blank)

lemma fullmatch_plus_Class:
  "fullmatch (plus (Class P)) w \<longleftrightarrow> w \<noteq> [] \<and> list_all P w"
  by (cases w)
    (simp_all add: plus_def fullmatch_Nil fullmatch_Cons fullmatch_Cat fullmatch_Blank
      fullmatch_Nothing fullmatch_Rep_Class)

lemma fullmatch_marker: "fullmatch marker w \<longleftrightarrow> w = ''**'' \<or> w = ''#''"
  by (auto simp: marker_def fullmatch_Alt fullmatch_Cat fullmatch_lit)

lemma marker_or_none: "fullmatch marker w \<or> w = [] \<longleftrightarrow> is_marker_or_none w"
  by (auto simp: fullmatch_marker is_marker_or_none_def)

lemma fullmatch_spaces: "fullmatch spaces w \<longleftrightarrow> list_all is_space w"
  by (simp add: spaces_def fullmatch_Rep_Class)

lemma fullmatch_opt_marker: "fullmatch (opt marker) w \<longleftrightarrow> is_marker_or_none w"
  by (simp add: fullmatch_opt marker_or_none)

lemma tail_end:
  "fullmatch (Cat spaces (opt (lit newline))) w \<longleftrightarrow> list_all is_space w"
proof
  assume "fullmatch (Cat spaces (opt (lit newline))) w"
  then obtain b n where "w = b @ n" "list_all is_space b" "n = [newline] \<or> n = []"
    unfolding fullmatch_Cat fullmatch_spaces fullmatch_opt fullmatch_lit by blast
  then show "list_all is_space w"
    by (auto simp: is_space_def newline_def)
next
  assume "list_all is_space w"
  then have "w = w @ [] \<and> list_all is_space w \<and> ([] = [newline] \<or> [] = ([] :: string))"
    by simp
  then show "fullmatch (Cat spaces (opt (lit newline))) w"
    unfolding fullmatch_Cat fullmatch_spaces fullmatch_opt fullmatch_lit by blast
qed

lemma tail_marker:
  "fullmatch (Cat (opt marker) (Cat spaces (opt (lit newline)))) w \<longleftrightarrow>
     (\<exists>m2 b. w = m2 @ b \<and> is_marker_or_none m2 \<and> list_all is_space b)"
  by (subst fullmatch_Cat) (simp only: fullmatch_opt_marker tail_end)

lemma tail_spaces:
  "fullmatch (Cat spaces (Cat (opt marker) (Cat spaces (opt (lit newline))))) w \<longleftrightarrow>
     (\<exists>w2 m2 b. w = w2 @ m2 @ b \<and> list_all is_space w2 \<and> is_marker_or_none m2 \<and>
        list_all is_space b)"
  by (subst fullmatch_Cat) (simp only: fullmatch_spaces tail_marker, blast)

lemma tail_colon:
  "fullmatch (Cat (lit CHR '':'')
      (Cat spaces (Cat (opt marker) (Cat spaces (opt (lit newline)))))) w \<longleftrightarrow>
     (\<exists>w2 m2 b. w = '':'' @ w2 @ m2 @ b \<and> list_all is_space w2 \<and> is_marker_or_none m2 \<and>
        list_all is_space b)"
  by (subst fullmatch_Cat) (simp only: fullmatch_lit tail_spaces, blast)

lemma tail_key:
  "fullmatch (Cat (plus (Class is_key_char)) (Cat (lit CHR '':'')
      (Cat spaces (Cat (opt marker) (Cat spaces (opt (lit newline))))))) w \<longleftrightarrow>
     (\<exists>key w2 m2 b. w = key @ '':'' @ w2 @ m2 @ b \<and> key \<noteq> [] \<and> list_all is_key_char key \<and>
        list_all is_space w2 \<and> is_marker_or_none m2 \<and> list_all is_space b)"
  by (subst fullmatch_Cat) (simp only: fullmatch_plus_Class tail_colon, blast)

lemma tail_spaces_key:
  "fullmatch (Cat spaces (Cat (plus (Class is_key_char)) (Cat (lit CHR '':'')
      (Cat spaces (Cat (opt marker) (Cat spaces (opt (lit newline)))))))) w \<longleftrightarrow>
     (\<exists>w1 key w2 m2 b. w = w1 @ key @ '':'' @ w2 @ m2 @ b \<and> list_all is_space w1 \<and>
        key \<noteq> [] \<and> list_all is_key_char key \<and>
        list_all is_space w2 \<and> is_marker_or_none m2 \<and> list_all is_space b)"
  by (subst fullmatch_Cat) (simp only: fullmatch_spaces tail_key, blast)

lemma tail_marker_key:
  "fullmatch (Cat (opt marker) (Cat spaces (Cat (plus (Class is_key_char)) (Cat (lit CHR '':'')
      (Cat spaces (Cat (opt marker) (Cat spaces (opt (lit newline))))))))) w \<longleftrightarrow>
     (\<exists>m1 w1 key w2 m2 b. w = m1 @ w1 @ key @ '':'' @ w2 @ m2 @ b \<and>
        is_marker_or_none m1 \<and> list_all is_space w1 \<and>
        key \<noteq> [] \<and> list_all is_key_char key \<and>
        list_all is_space w2 \<and> is_marker_or_none m2 \<and> list_all is_space b)"
  by (subst fullmatch_Cat) (simp only: fullmatch_opt_marker tail_spaces_key, blast)

lemma fullmatch_new_section_pattern:
  "fullmatch new_section_pattern t \<longleftrightarrow>
     (\<exists>a m1 w1 key w2 m2 b.
        t = a @ m1 @ w1 @ key @ '':'' @ w2 @ m2 @ b \<and>
        list_all is_space a \<and> is_marker_or_none m1 \<and> list_all is_space w1 \<and>
        key \<noteq> [] \<and> list_all is_key_char key \<and>
        list_all is_space w2 \<and> is_marker_or_none m2 \<and> list_all is_space b)"
  unfolding new_section_pattern_def
  by (subst fullmatch_Cat) (simp only: fullmatch_spaces tail_marker_key, blast)

subsection \<open>Trimmed text\<close>

lemma strip_prefix:
  "dropWhile is_space s = strip s @ rev (takeWhile is_space (rev (dropWhile is_space s)))"
proof -
  let ?d = "dropWhile is_space s"
  have "strip s @ rev (takeWhile is_space (rev ?d)) =
        rev (takeWhile is_space (rev ?d) @ dropWhile is_space (rev ?d))"
    by (simp only: strip_def rev_append)
  also have "\<dots> = rev (rev ?d)"
    by (simp only: takeWhile_dropWhile_id)
  also have "\<dots> = ?d"
    by simp
  finally show ?thesis by simp
qed

lemma strip_hd: "strip s \<noteq> [] \<Longrightarrow> \<not> is_space (hd (strip s))"
proof -
  assume ne: "strip s \<noteq> []"
  let ?d = "dropWhile is_space s"
  have "hd ?d = hd (strip s)"
    using ne by (subst strip_prefix) simp
  moreover have "?d \<noteq> []"
    using ne by (subst strip_prefix) simp
  ultimately show ?thesis
    using hd_dropWhile[of is_space s] by simp
qed

lemma strip_last: "strip s \<noteq> [] \<Longrightarrow> \<not> is_space (last (strip s))"
proof -
  assume ne: "strip s \<noteq> []"
  let ?e = "dropWhile is_space (rev (dropWhile is_space s))"
  have e: "?e \<noteq> []" using ne by (simp add: strip_def)
  have "last (strip s) = hd ?e"
    using e by (simp add: strip_def last_rev)
  then show ?thesis
    using hd_dropWhile[OF e] by simp
qed

lemma strip_keeps: "c \<in> set s \<Longrightarrow> \<not> is_space c \<Longrightarrow> c \<in> set (strip s)"
proof -
  assume c: "c \<in> set s" and n: "\<not> is_space c"
  have keep: "c \<in> set xs \<Longrightarrow> c \<in> set (dropWhile is_space xs)" for xs
    using n by (induction xs) auto
  show ?thesis
    unfolding strip_def using keep[OF c] keep[of "rev (dropWhile is_space s)"] by simp
qed

declare findall_emails.simps [simp del]

declare findall_yaml.simps [simp del]

lemma list_all_hd: "list_all P xs \<Longrightarrow> xs \<noteq> [] \<Longrightarrow> P (hd xs)"
  by (cases xs) simp_all

lemma list_all_last: "list_all P xs \<Longrightarrow> xs \<noteq> [] \<Longrightarrow> P (last xs)"
  by (simp add: list_all_iff)

lemma is_new_section_shape:
  "is_new_section line \<longleftrightarrow>
     (\<exists>m1 w1 key w2 m2.
        strip line = m1 @ w1 @ key @ '':'' @ w2 @ m2 \<and>
        is_marker_or_none m1 \<and> list_all is_space w1 \<and>
        key \<noteq> [] \<and> list_all is_key_char key \<and>
        list_all is_space w2 \<and> is_marker_or_none m2)"
  (is "?L \<longleftrightarrow> ?R")
proof
  assume ?L
  then obtain a m1 w1 key w2 m2 b where
    t: "strip line = a @ m1 @ w1 @ key @ '':'' @ w2 @ m2 @ b"
    and p: "list_all is_space a" "is_marker_or_none m1" "list_all is_space w1"
      "key \<noteq> []" "list_all is_key_char key" "list_all is_space w2"
      "is_marker_or_none m2" "list_all is_space b"
    unfolding is_new_section_def fullmatch_new_section_pattern by blast
  have ne: "strip line \<noteq> []"
    using t by simp
  have "a = []"
  proof (rule ccontr)
    assume "a \<noteq> []"
    then have "hd (strip line) = hd a" using t by simp
    with \<open>a \<noteq> []\<close> p(1) have "is_space (hd (strip line))"
      by (simp add: list_all_hd)
    with strip_hd[OF ne] show False by simp
  qed
  moreover have "b = []"
  proof (rule ccontr)
    assume "b \<noteq> []"
    then have "last (strip line) = last b" using t by simp
    with \<open>b \<noteq> []\<close> p(8) have "is_space (last (strip line))"
      by (simp add: list_all_last)
    with strip_last[OF ne] show False by simp
  qed
  ultimately have "strip line = m1 @ w1 @ key @ '':'' @ w2 @ m2"
    using t by simp
  with p show ?R by blast
next
  assume ?R
  then obtain m1 w1 key w2 m2 where
    t: "strip line = m1 @ w1 @ key @ '':'' @ w2 @ m2"
    and p: "is_marker_or_none m1" "list_all is_space w1"
      "key \<noteq> []" "list_all is_key_char key" "list_all is_space w2" "is_marker_or_none m2"
    by blast
  have "strip line = [] @ m1 @ w1 @ key @ '':'' @ w2 @ m2 @ [] \<and>
        list_all is_space ([] :: string)"
    using t by simp
  with p show ?L
    unfolding is_new_section_def fullmatch_new_section_pattern by blast
qed

lemma is_new_section_chars:
  assumes "is_new_section line" and "c \<in> set line"
  shows "header_char c"
proof (cases "is_space c")
  case True
  then show ?thesis by (simp add: header_char_def)
next
  case False
  with assms(2) have c: "c \<in> set (strip line)" by (simp add: strip_keeps)
  from assms(1) obtain m1 w1 key w2 m2 where
    t: "strip line = m1 @ w1 @ key @ '':'' @ w2 @ m2"
    and p: "is_marker_or_none m1" "list_all is_space w1"
      "list_all is_key_char key" "list_all is_space w2" "is_marker_or_none m2"
    unfolding is_new_section_shape by blast
  from c have "c \<in> set m1 \<or> c \<in> set w1 \<or> c \<in> set key \<or> c = CHR '':'' \<or> c \<in> set w2 \<or> c \<in> set m2"
    unfolding t by auto
  with p show ?thesis
    by (auto simp: header_char_def is_marker_or_none_def list_all_iff)
qed

lemma match_email_has_at: "match_email_at s = Some fr \<Longrightarrow> CHR ''@'' \<in> set s"
proof -
  assume "match_email_at s = Some fr"
  then obtain after where "dropWhile is_email_char s = CHR ''@'' # after"
    by (auto simp: match_email_at_def Let_def split: if_splits list.splits)
  then have "CHR ''@'' \<in> set (dropWhile is_email_char s)" by simp
  then show ?thesis by (rule set_dropWhileD)
qed

lemma findall_emails_has_at: "findall_emails s \<noteq> [] \<Longrightarrow> CHR ''@'' \<in> set s"
proof (induction s rule: findall_emails.induct)
  case 1
  then show ?case by (simp add: findall_emails.simps)
next
  case (2 c cs)
  show ?case
  proof (cases "match_email_at (c # cs)")
    case None
    with 2 have "CHR ''@'' \<in> set cs" by (simp add: findall_emails.simps)
    then show ?thesis by simp
  next
    case (Some fr)
    then show ?thesis by (rule match_email_has_at)
  qed
qed

lemma at_not_header_char: "\<not> header_char CHR ''@''"
  by (simp add: header_char_def is_space_def is_key_char_def is_letter_def)

text \<open>
  Claim C4, amended.  A line ends an owner block exactly when, trimmed of white space, it
  is an optional marker \<^verbatim>\<open>**\<close> or \<^verbatim>\<open>#\<close>, optional white space, one or more of the
  letters \<^verbatim>\<open>a\<close> to \<^verbatim>\<open>z\<close>, \<^verbatim>\<open>A\<close> to \<^verbatim>\<open>Z\<close> and the underscore (no digits), a colon,
  optional white space and an optional marker, and nothing else.  A line with any other
  character is no terminator, and a line with an address in particular is none.  Every
  line that is no terminator, with an address or without, is passed: its addresses are
  collected and the scan goes on with the next line.  At a terminator the block ends.
\<close>

theorem section_header_ends_block:
  "(is_new_section line \<longleftrightarrow>
      (\<exists>m1 w1 key w2 m2.
         strip line = m1 @ w1 @ key @ '':'' @ w2 @ m2 \<and>
         is_marker_or_none m1 \<and> list_all is_space w1 \<and>
         key \<noteq> [] \<and> list_all is_key_char key \<and>
         list_all is_space w2 \<and> is_marker_or_none m2)) \<and>
   ((\<exists>c \<in> set line. \<not> header_char c) \<longrightarrow> \<not> is_new_section line) \<and>
   (findall_emails line \<noteq> [] \<longrightarrow> \<not> is_new_section line) \<and>
   (\<not> is_new_section line \<longrightarrow>
      scan_block (line # rest) = findall_emails line @ scan_block rest) \<and>
   (is_new_section line \<longrightarrow> scan_block (line # rest) = [])"
proof (intro conjI impI)
  show "is_new_section line \<longleftrightarrow>
      (\<exists>m1 w1 key w2 m2.
         strip line = m1 @ w1 @ key @ '':'' @ w2 @ m2 \<and>
         is_marker_or_none m1 \<and> list_all is_space w1 \<and>
         key \<noteq> [] \<and> list_all is_key_char key \<and>
         list_all is_space w2 \<and> is_marker_or_none m2)"
    by (rule is_new_section_shape)
next
  assume "\<exists>c \<in> set line. \<not> header_char c"
  then show "\<not> is_new_section line"
    using is_new_section_chars by blast
next
  assume "findall_emails line \<noteq> []"
  then have "CHR ''@'' \<in> set line" by (rule findall_emails_has_at)
  then show "\<not> is_new_section line"
    using is_new_section_chars at_not_header_char by blast
next
  assume "\<not> is_new_section line"
  then show "scan_block (line # rest) = findall_emails line @ scan_block rest"
    by simp
next
  assume "is_new_section line"
  then show "scan_block (line # rest) = []" by simp
qed

lemma ex_block: "scan_block [''State:'', ''z@x.com''] = []"
  by code_simp

lemma ex_emails: "findall_emails ''next: b@x.com'' = [''b@x.com'']"
  by code_simp

lemma ex_no_emails: "findall_emails ''State: foo'' = []"
  by code_simp

lemma ex_not_header: "\<not> is_new_section ''State: foo''"
  by code_simp

lemma ex_header: "is_new_section ''State:''"
  by code_simp

lemma ex_header_nbsp: "is_new_section ([CHR 0xA0] @ ''Key:'' @ [CHR 0xA0])"
  by code_simp

theorem section_header_ends_block_witness:
  "\<not> is_new_section ''State: foo'' \<and>
   findall_emails ''State: foo'' = [] \<and>
   findall_emails ''next: b@x.com'' \<noteq> [] \<and>
   \<not> is_new_section ''next: b@x.com'' \<and>
   is_new_section ''State:'' \<and>
   is_new_section ([CHR 0xA0] @ ''Key:'' @ [CHR 0xA0]) \<and>
   scan_block [''State:'', ''z@x.com''] = [] \<and>
   scan_block [''next: b@x.com'', ''State:'', ''z@x.com''] = [''b@x.com''] \<and>
   scan_block [''State: foo'', ''next: b@x.com'', ''State:'', ''z@x.com''] = [''b@x.com'']"
proof -
  have e: "findall_emails ''next: b@x.com'' \<noteq> []"
    unfolding ex_emails by simp
  from section_header_ends_block[of "''next: b@x.com''" "[''State:'', ''z@x.com'']"] e
  have n: "\<not> is_new_section ''next: b@x.com''"
    by blast
  from section_header_ends_block[of "''next: b@x.com''" "[''State:'', ''z@x.com'']"] n
  have s: "scan_block [''next: b@x.com'', ''State:'', ''z@x.com''] =
           findall_emails ''next: b@x.com'' @ scan_block [''State:'', ''z@x.com'']"
    by blast
  from section_header_ends_block[of "''State:''" "[''z@x.com'']"] ex_header
  have h: "scan_block [''State:'', ''z@x.com''] = []"
    by blast
  have s1: "scan_block [''next: b@x.com'', ''State:'', ''z@x.com''] = [''b@x.com'']"
    unfolding s ex_emails h by simp
  from section_header_ends_block[of "''State: foo''"
         "[''next: b@x.com'', ''State:'', ''z@x.com'']"] ex_not_header
  have t: "scan_block [''State: foo'', ''next: b@x.com'', ''State:'', ''z@x.com''] =
           findall_emails ''State: foo'' @
           scan_block [''next: b@x.com'', ''State:'', ''z@x.com'']"
    by blast
  have s2: "scan_block [''State: foo'', ''next: b@x.com'', ''State:'', ''z@x.com''] =
            [''b@x.com'']"
    unfolding t ex_no_emails s1 by simp
  from ex_not_header ex_no_emails e n ex_header ex_header_nbsp h s1 s2
  show ?thesis by blast
qed

text \<open>
  With word characters for the key and no white space between the parts, as the claim is
  worded, the two directions fail: \<^verbatim>\<open>Stage2:\<close> has that shape and does not end a block,
  \<^verbatim>\<open># Key:\<close> ends a block and has not that shape.
\<close>

theorem section_header_counterexample:
  "spec_section_header (strip ''Stage2:'') \<and> \<not> is_new_section ''Stage2:'' \<and>
   is_new_section ''# Key:'' \<and> \<not> spec_section_header (strip ''# Key:'')"
  by code_simp

lemma owner_file_emails: "scan_lines (readlines owner_file) = [''b@x.com'', ''c@x.com'']"
  by code_simp

lemma owner_file_sorted: "sorted_unique [''b@x.com'', ''c@x.com''] = [''b@x.com'', ''c@x.com'']"
  by code_simp

text \<open>
  Claim C3, amended.  For the file whose four lines are \<^verbatim>\<open>owner: a@x.com\<close>,
  \<^verbatim>\<open>next: b@x.com\<close>, \<^verbatim>\<open>State: foo\<close>, \<^verbatim>\<open>owner: c@x.com\<close>, the function returns exactly
  \<^verbatim>\<open>["b@x.com", "c@x.com"]\<close>.  The addresses are taken from the lines after an owner
  line; \<^verbatim>\<open>a@x.com\<close> stands on the first owner line itself and is in no block.  No line
  of the file is a section header, so the first block runs to the end of the file.
\<close>

theorem owner_example:
  "readlines owner_file =
     [''owner: a@x.com'' @ [newline], ''next: b@x.com'' @ [newline],
      ''State: foo'' @ [newline], ''owner: c@x.com'' @ [newline]] \<and>
   (read_text env filepath = Some owner_file \<longrightarrow>
      extract_owners_from_file env filepath = [''b@x.com'', ''c@x.com''])"
proof
  show "readlines owner_file =
     [''owner: a@x.com'' @ [newline], ''next: b@x.com'' @ [newline],
      ''State: foo'' @ [newline], ''owner: c@x.com'' @ [newline]]"
    by code_simp
next
  show "read_text env filepath = Some owner_file \<longrightarrow>
      extract_owners_from_file env filepath = [''b@x.com'', ''c@x.com'']"
    by (simp add: extract_owners_from_file_def owner_file_emails owner_file_sorted)
qed

lemma ex_owner_read: "read_text ex_owner_env ''dag.py'' = Some owner_file"
  by (simp add: ex_owner_env_def)

theorem owner_example_witness:
  "read_text ex_owner_env ''dag.py'' = Some owner_file \<and>
   extract_owners_from_file ex_owner_env ''dag.py'' = [''b@x.com'', ''c@x.com'']"
  using owner_example[of ex_owner_env "''dag.py''"] ex_owner_read by blast

text \<open>The list with \<^verbatim>\<open>a@x.com\<close> is not the value of the function on that file.\<close>

theorem owner_example_counterexample:
  "read_text ex_owner_env ''dag.py'' = Some owner_file \<and>
   extract_owners_from_file ex_owner_env ''dag.py'' \<noteq> [''a@x.com'', ''b@x.com'', ''c@x.com'']"
proof -
  have "extract_owners_from_file ex_owner_env ''dag.py'' = [''b@x.com'', ''c@x.com'']"
    by (simp add: extract_owners_from_file_def ex_owner_read owner_file_emails owner_file_sorted)
  then show ?thesis using ex_owner_read by simp
qed

section \<open>Properties of the path helper and of the driver\<close>

lemma index_of_first:
  "x \<notin> set pre \<Longrightarrow> index_of (pre @ x # rest) x = Some (length pre)"
  by (induction pre) auto

lemma index_of_absent: "x \<notin> set xs \<Longrightarrow> index_of xs x = None"
  by (induction xs) auto

text \<open>
  Claim C8.  The function returns the component that follows the first component equal to
  the anchor, and \<^verbatim>\<open>None\<close> when no component is the anchor or when that component is the
  last one; this holds for every way of splitting a path into components.  With the
  components of a Windows path it returns \<^verbatim>\<open>sales\<close> for
  \<^verbatim>\<open>C:\x\pipeline\sales\dags\a.py\<close> and the anchor \<^verbatim>\<open>pipeline\<close>.
\<close>

theorem first_subfolder_after_anchor:
  "(anchor \<notin> set (path_parts p) \<longrightarrow>
      get_first_subfolder_from_anchor path_parts p anchor = None) \<and>
   (\<forall>pre. path_parts p = pre @ [anchor] \<and> anchor \<notin> set pre \<longrightarrow>
      get_first_subfolder_from_anchor path_parts p anchor = None) \<and>
   (\<forall>pre next rest. path_parts p = pre @ anchor # next # rest \<and> anchor \<notin> set pre \<longrightarrow>
      get_first_subfolder_from_anchor path_parts p anchor = Some next) \<and>
   windows_parts ex_script_path = [''C:'' @ [sep], ''x'', ''pipeline'', ''sales'', ''dags'', ''a.py''] \<and>
   get_first_subfolder_from_anchor windows_parts ex_script_path default_anchor = Some ''sales''"
proof (intro conjI allI impI)
  assume "anchor \<notin> set (path_parts p)"
  then show "get_first_subfolder_from_anchor path_parts p anchor = None"
    by (simp add: get_first_subfolder_from_anchor_def)
next
  fix pre assume a: "path_parts p = pre @ [anchor] \<and> anchor \<notin> set pre"
  then have "index_of (path_parts p) anchor = Some (length pre)"
    by (simp add: index_of_first)
  with a show "get_first_subfolder_from_anchor path_parts p anchor = None"
    by (simp add: get_first_subfolder_from_anchor_def)
next
  fix pre "next" rest
  assume a: "path_parts p = pre @ anchor # next # rest \<and> anchor \<notin> set pre"
  then have "index_of (path_parts p) anchor = Some (length pre)"
    by (simp add: index_of_first)
  with a show "get_first_subfolder_from_anchor path_parts p anchor = Some next"
    by (simp add: get_first_subfolder_from_anchor_def nth_append)
next
  show "windows_parts ex_script_path =
          [''C:'' @ [sep], ''x'', ''pipeline'', ''sales'', ''dags'', ''a.py'']"
    by code_simp
next
  show "get_first_subfolder_from_anchor windows_parts ex_script_path default_anchor = Some ''sales''"
    by code_simp
qed

theorem first_subfolder_after_anchor_witness:
  "''pipeline'' \<notin> set (windows_parts (''C:'' @ [sep] @ ''x'' @ [sep] @ ''a.py'')) \<and>
   get_first_subfolder_from_anchor windows_parts (''C:'' @ [sep] @ ''x'' @ [sep] @ ''a.py'')
     ''pipeline'' = None \<and>
   windows_parts (''x'' @ [sep] @ ''pipeline'') = [''x''] @ [''pipeline''] \<and>
   ''pipeline'' \<notin> set [''x''] \<and>
   get_first_subfolder_from_anchor windows_parts (''x'' @ [sep] @ ''pipeline'') ''pipeline'' = None \<and>
   windows_parts (''pipeline'' @ [sep] @ ''sales'' @ [sep] @ ''pipeline'' @ [sep] @ ''b'') =
     [] @ ''pipeline'' # ''sales'' # [''pipeline'', ''b''] \<and>
   get_first_subfolder_from_anchor windows_parts
     (''pipeline'' @ [sep] @ ''sales'' @ [sep] @ ''pipeline'' @ [sep] @ ''b'') ''pipeline'' =
     Some ''sales''"
proof -
  have a: "''pipeline'' \<notin> set (windows_parts (''C:'' @ [sep] @ ''x'' @ [sep] @ ''a.py''))"
    by code_simp
  have b: "windows_parts (''x'' @ [sep] @ ''pipeline'') = [''x''] @ [''pipeline'']"
    by code_simp
  have b': "''pipeline'' \<notin> set [''x'']" by simp
  have c: "windows_parts (''pipeline'' @ [sep] @ ''sales'' @ [sep] @ ''pipeline'' @ [sep] @ ''b'') =
     [] @ ''pipeline'' # ''sales'' # [''pipeline'', ''b'']"
    by code_simp
  have c': "''pipeline'' \<notin> set ([] :: string list)" by simp
  from first_subfolder_after_anchor[of "''pipeline''" windows_parts
         "''C:'' @ [sep] @ ''x'' @ [sep] @ ''a.py''"] a
  have r1: "get_first_subfolder_from_anchor windows_parts
         (''C:'' @ [sep] @ ''x'' @ [sep] @ ''a.py'') ''pipeline'' = None"
    by blast
  from first_subfolder_after_anchor[of "''pipeline''" windows_parts
         "''x'' @ [sep] @ ''pipeline''"] b b'
  have r2: "get_first_subfolder_from_anchor windows_parts (''x'' @ [sep] @ ''pipeline'')
         ''pipeline'' = None"
    by blast
  from first_subfolder_after_anchor[of "''pipeline''" windows_parts
         "''pipeline'' @ [sep] @ ''sales'' @ [sep] @ ''pipeline'' @ [sep] @ ''b''"] c c'
  have r3: "get_first_subfolder_from_anchor windows_parts
     (''pipeline'' @ [sep] @ ''sales'' @ [sep] @ ''pipeline'' @ [sep] @ ''b'') ''pipeline'' =
     Some ''sales''"
    by blast
  from a b b' c r1 r2 r3 show ?thesis by blast
qed

text \<open>
  Claim C5, on the code.  When the catalog file is missing or cannot be read, the loader
  returns the empty dict; the driver reads the key \<^verbatim>\<open>external_table_names\<close> from it,
  gets \<^verbatim>\<open>None\<close>, and the sql scanner raises \<^verbatim>\<open>TypeError\<close> on it.  The run ends there and
  no report is built.
\<close>

theorem missing_catalog_aborts:
  "read_csv env input_csv_file_path = Absent \<or> read_csv env input_csv_file_path = Unreadable \<Longrightarrow>
   get_external_table_names_from_csv env input_csv_file_path = Inr [] \<and>
   main_report env set_iter input_csv_file_path pipeline_file_path = Inl TypeError"
  by (auto simp: main_report_def get_external_table_names_from_csv_def iterable_def)

theorem missing_catalog_aborts_witness:
  "read_csv ex_env ''missing.csv'' = Absent \<and>
   get_external_table_names_from_csv ex_env ''missing.csv'' = Inr [] \<and>
   main_report ex_env remdups ''missing.csv'' ''pipeline'' = Inl TypeError"
proof -
  have a: "read_csv ex_env ''missing.csv'' = Absent"
    by (simp add: ex_env_def)
  with missing_catalog_aborts[of ex_env "''missing.csv''" remdups "''pipeline''"]
  show ?thesis by blast
qed

end
